theory Spec2Isabelle
  imports Complex_Main "HOL-Library.Signed_Division" "HOL-Library.Multiset"
begin

section \<open>The HIP runtime as seen by HIPStream.cpp\<close>

text \<open>
  \<^verbatim>\<open>#define TBSIZE 1024\<close>: the fixed work-group size of every launch.
\<close>

definition TBSIZE :: nat where
  "TBSIZE = 1024"

text \<open>
  Conversions of a C \<^verbatim>\<open>int\<close> to \<^verbatim>\<open>unsigned int\<close> (the components of
  \<^verbatim>\<open>dim3\<close>) and to \<^verbatim>\<open>size_t\<close> (64 bits): reduction modulo the width.
\<close>

definition to_unsigned :: "int \<Rightarrow> nat" where
  "to_unsigned k = nat (k mod 2 ^ 32)"

definition to_size_t :: "int \<Rightarrow> nat" where
  "to_size_t k = nat (k mod 2 ^ 64)"

text \<open>The result of an arithmetic operation in \<^verbatim>\<open>unsigned int\<close> and in \<^verbatim>\<open>size_t\<close>.\<close>

definition wrap_unsigned :: "nat \<Rightarrow> nat" where
  "wrap_unsigned n = n mod 2 ^ 32"

definition wrap_size_t :: "nat \<Rightarrow> nat" where
  "wrap_size_t n = n mod 2 ^ 64"

datatype hipError_t = hipSuccess | hipFailure nat

text \<open>
  How a call into HIPStream ends when it does not return normally:
  \<^item> \<open>runtime_error msg\<close>: \<^verbatim>\<open>throw std::runtime_error(msg)\<close>;
  \<^item> \<open>exit_failure\<close>: \<^verbatim>\<open>HIP_CHECK\<close> saw a status other than \<^verbatim>\<open>hipSuccess\<close>
    and called \<^verbatim>\<open>exit(-1)\<close>;
  \<^item> \<open>undefined_behaviour\<close>: an access outside a buffer, or a loop that cannot advance.
\<close>

datatype error = runtime_error string | exit_failure | undefined_behaviour

record hipDeviceProp_t =
  name :: string
  totalGlobalMem :: nat

text \<open>
  The answers of the HIP runtime. \<open>hipMalloc rt k bytes\<close> is the status of the
  \<open>k\<close>-th device allocation of the constructor; \<open>device_garbage rt k i\<close> is what the
  \<open>k\<close>-th fresh device buffer holds at element \<open>i\<close> and \<open>host_garbage rt i\<close> what the
  fresh host buffer holds (neither allocation initialises its memory).
\<close>

record 'a hip_runtime =
  hipGetDeviceCount :: "hipError_t \<times> int"
  hipSetDevice :: "int \<Rightarrow> hipError_t"
  hipGetDeviceProperties :: "int \<Rightarrow> hipError_t \<times> hipDeviceProp_t"
  hipDriverGetVersion :: "hipError_t \<times> int"
  hipHostMalloc :: "nat \<Rightarrow> hipError_t"
  hipMalloc :: "nat \<Rightarrow> nat \<Rightarrow> hipError_t"
  hipGetLastError :: hipError_t
  hipDeviceSynchronize :: hipError_t
  hipMemcpy :: hipError_t
  device_garbage :: "nat \<Rightarrow> nat \<Rightarrow> 'a"
  host_garbage :: "nat \<Rightarrow> 'a"

text \<open>The runtime calls of the constructor, in the order they are made.\<close>

datatype hip_call =
    GetDeviceCount
  | SetDevice int
  | GetDeviceProperties int
  | DriverGetVersion
  | HostMalloc nat
  | Malloc nat

type_synonym 'r hip = "hip_call list \<times> (error + 'r)"

text \<open>
  \<^verbatim>\<open>HIP_CHECK(stat)\<close> in the constructor. \<^verbatim>\<open>HIP_CHECK\<close> is a macro whose body names its
  argument twice: once in the test \<^verbatim>\<open>stat != hipSuccess\<close> and once more in
  \<^verbatim>\<open>hipGetErrorString(stat)\<close>, on the failing branch. The argument is the runtime call
  itself, so the call is made (and logged) once when it succeeds, after which the rest
  \<open>k\<close> of the function runs, and twice when it fails: the second time for the error
  message, after which \<^verbatim>\<open>exit(-1)\<close> ends the process whatever that second call returned.
\<close>

definition HIP_CHECK_log ::
  "hip_call list \<Rightarrow> hip_call \<Rightarrow> hipError_t \<Rightarrow> (hip_call list \<Rightarrow> 'r hip) \<Rightarrow> 'r hip" where
  "HIP_CHECK_log tr call stat k =
     (if stat \<noteq> hipSuccess then (tr @ [call, call], Inl exit_failure) else k (tr @ [call]))"

definition getDeviceName ::
  "'a hip_runtime \<Rightarrow> hip_call list \<Rightarrow> int \<Rightarrow> (hip_call list \<Rightarrow> string \<Rightarrow> 'r hip) \<Rightarrow> 'r hip" where
  "getDeviceName rt tr device k =
     HIP_CHECK_log tr (GetDeviceProperties device) (fst (hipGetDeviceProperties rt device))
       (\<lambda>tr. k tr (name (snd (hipGetDeviceProperties rt device))))"

definition getDeviceDriver ::
  "'a hip_runtime \<Rightarrow> hip_call list \<Rightarrow> int \<Rightarrow> (hip_call list \<Rightarrow> int \<Rightarrow> 'r hip) \<Rightarrow> 'r hip" where
  "getDeviceDriver rt tr device k =
     HIP_CHECK_log tr (SetDevice device) (hipSetDevice rt device)
       (\<lambda>tr. HIP_CHECK_log tr DriverGetVersion (fst (hipDriverGetVersion rt))
          (\<lambda>tr. k tr (snd (hipDriverGetVersion rt))))"

section \<open>The backend object and its constructor\<close>

text \<open>The data members of \<^verbatim>\<open>HIPStream<T>\<close>; \<open>sums_buf\<close> is the member \<^verbatim>\<open>sums\<close>, the host
  buffer of partial sums.\<close>

record 'a HIPStream =
  array_size :: int
  dot_num_blocks :: int
  d_a :: "'a list"
  d_b :: "'a list"
  d_c :: "'a list"
  sums_buf :: "'a list"

text \<open>
  \<^verbatim>\<open>(array_size + (TBSIZE * dot_elements_per_lane - 1)) / (TBSIZE * dot_elements_per_lane)\<close>.
  The constant \<^verbatim>\<open>dot_elements_per_lane\<close> is declared in HIPStream.h, which is not among
  the sources, so it is a parameter here. C++ division truncates. The arithmetic is
  written without wrap-around; the theorems that depend on the value assume
  \<open>TBSIZE * dot_elements_per_lane + array_size \<le> 2^31\<close>, under which no 32-bit type
  overflows. A divisor of zero is undefined behaviour, which the constructor's model
  checks before it uses this function.
\<close>

definition dot_blocks :: "nat \<Rightarrow> int \<Rightarrow> int" where
  "dot_blocks dot_elements_per_lane n =
     (n + (int TBSIZE * int dot_elements_per_lane - 1)) sdiv (int TBSIZE * int dot_elements_per_lane)"

text \<open>A fresh buffer of \<open>bytes\<close> bytes, as elements of \<open>sizeof_T\<close> bytes each.\<close>

definition fresh_buffer :: "(nat \<Rightarrow> 'a) \<Rightarrow> nat \<Rightarrow> nat \<Rightarrow> 'a list" where
  "fresh_buffer garbage sizeof_T bytes = map garbage [0..<bytes div sizeof_T]"

text \<open>
  \<^verbatim>\<open>HIPStream<T>::HIPStream(const int ARRAY_SIZE, const int device_index)\<close>, with
  \<open>sizeof_T\<close> for \<^verbatim>\<open>sizeof(T)\<close>. The result carries the log of the runtime calls made,
  also when construction fails. The two lines written to \<^verbatim>\<open>std::cout\<close> are not modelled;
  the calls they make are.
\<close>

definition HIPStream_new ::
  "'a hip_runtime \<Rightarrow> nat \<Rightarrow> nat \<Rightarrow> int \<Rightarrow> int \<Rightarrow> 'a HIPStream hip" where
  "HIPStream_new rt sizeof_T dot_elements_per_lane ARRAY_SIZE device_index =
     (if ARRAY_SIZE smod int TBSIZE \<noteq> 0
      then ([], Inl (runtime_error ''Array size must be a multiple of 1024''))
      else
        HIP_CHECK_log [] GetDeviceCount (fst (hipGetDeviceCount rt)) (\<lambda>tr.
        if device_index \<ge> snd (hipGetDeviceCount rt)
        then (tr, Inl (runtime_error ''Invalid device index''))
        else
          HIP_CHECK_log tr (SetDevice device_index) (hipSetDevice rt device_index) (\<lambda>tr.
          getDeviceName rt tr device_index (\<lambda>tr _.
          getDeviceDriver rt tr device_index (\<lambda>tr _.
          if dot_elements_per_lane = 0 then (tr, Inl undefined_behaviour)
          else
          let blocks = dot_blocks dot_elements_per_lane ARRAY_SIZE;
              array_bytes = wrap_size_t (sizeof_T * to_size_t ARRAY_SIZE);
              sums_bytes = wrap_size_t (sizeof_T * to_size_t blocks)
          in
          HIP_CHECK_log tr (HostMalloc sums_bytes) (hipHostMalloc rt sums_bytes) (\<lambda>tr.
          HIP_CHECK_log tr (GetDeviceProperties 0) (fst (hipGetDeviceProperties rt 0)) (\<lambda>tr.
          if totalGlobalMem (snd (hipGetDeviceProperties rt 0))
               < wrap_size_t (wrap_size_t (3 * to_size_t ARRAY_SIZE) * sizeof_T)
          then (tr, Inl (runtime_error ''Device does not have enough memory for all 3 buffers''))
          else
            HIP_CHECK_log tr (Malloc array_bytes) (hipMalloc rt 0 array_bytes) (\<lambda>tr.
            HIP_CHECK_log tr (Malloc array_bytes) (hipMalloc rt 1 array_bytes) (\<lambda>tr.
            HIP_CHECK_log tr (Malloc array_bytes) (hipMalloc rt 2 array_bytes) (\<lambda>tr.
              (tr, Inr \<lparr> array_size = ARRAY_SIZE,
                         dot_num_blocks = blocks,
                         d_a = fresh_buffer (device_garbage rt 0) sizeof_T array_bytes,
                         d_b = fresh_buffer (device_garbage rt 1) sizeof_T array_bytes,
                         d_c = fresh_buffer (device_garbage rt 2) sizeof_T array_bytes,
                         sums_buf = fresh_buffer (host_garbage rt) sizeof_T sums_bytes \<rparr>)))))))))))"

section \<open>Kernels\<close>

text \<open>
  \<^verbatim>\<open>HIP_CHECK(stat)\<close> in the member functions: a status other than \<^verbatim>\<open>hipSuccess\<close>
  ends the process, otherwise the rest of the function runs. On the failing branch the
  macro evaluates its argument a second time, for the error message; the process ends
  with \<^verbatim>\<open>exit(-1)\<close> whatever that second call returns, and no log is kept here, so the
  result is the same.
\<close>

definition HIP_CHECK :: "hipError_t \<Rightarrow> (error + 'r) \<Rightarrow> error + 'r" where
  "HIP_CHECK stat k = (if stat \<noteq> hipSuccess then Inl exit_failure else k)"

text \<open>
  \<^verbatim>\<open>blockDim.x * blockIdx.x + threadIdx.x\<close> (written
  \<^verbatim>\<open>threadIdx.x + blockIdx.x * blockDim.x\<close> in some kernels): 32-bit unsigned arithmetic.
\<close>

definition global_index :: "nat \<Rightarrow> nat \<Rightarrow> nat \<Rightarrow> nat" where
  "global_index blockDim blockIdx threadIdx = wrap_unsigned (blockDim * blockIdx + threadIdx)"

text \<open>
  The work items of a launch run one after the other, in the order of the list; a fault
  in one of them ends the launch. The element-wise kernels touch only the element of
  their own index, so the order does not change their result.
\<close>

fun run_seq :: "('i \<Rightarrow> 's \<Rightarrow> error + 's) \<Rightarrow> 'i list \<Rightarrow> 's \<Rightarrow> error + 's" where
  "run_seq body [] s = Inr s"
| "run_seq body (i # is) s =
     (case body i s of Inl e \<Rightarrow> Inl e | Inr s' \<Rightarrow> run_seq body is s')"

text \<open>The threads of \<^verbatim>\<open><<<dim3(gridDim), dim3(blockDim), 0, 0>>>\<close>, as pairs
  (blockIdx.x, threadIdx.x).\<close>

definition threads :: "nat \<Rightarrow> nat \<Rightarrow> (nat \<times> nat) list" where
  "threads gridDim blockDim = List.product [0..<gridDim] [0..<blockDim]"

definition launch ::
  "nat \<Rightarrow> nat \<Rightarrow> (nat \<Rightarrow> nat \<Rightarrow> nat \<Rightarrow> 's \<Rightarrow> error + 's) \<Rightarrow> 's \<Rightarrow> error + 's" where
  "launch gridDim blockDim kern s =
     run_seq (\<lambda>(blockIdx, threadIdx). kern blockDim blockIdx threadIdx) (threads gridDim blockDim) s"

text \<open>The grid of the element-wise launches: \<^verbatim>\<open>dim3(array_size/TBSIZE)\<close>.\<close>

definition grid_of :: "int \<Rightarrow> nat" where
  "grid_of n = to_unsigned (n sdiv int TBSIZE)"

definition init_kernel ::
  "'a \<Rightarrow> 'a \<Rightarrow> 'a \<Rightarrow> nat \<Rightarrow> nat \<Rightarrow> nat \<Rightarrow> 'a list \<times> 'a list \<times> 'a list
     \<Rightarrow> error + 'a list \<times> 'a list \<times> 'a list" where
  "init_kernel initA initB initC blockDim blockIdx threadIdx = (\<lambda>(a, b, c).
     let i = global_index blockDim blockIdx threadIdx in
     if i < length a \<and> i < length b \<and> i < length c
     then Inr (a[i := initA], b[i := initB], c[i := initC])
     else Inl undefined_behaviour)"

definition init_arrays ::
  "'a hip_runtime \<Rightarrow> 'a \<Rightarrow> 'a \<Rightarrow> 'a \<Rightarrow> 'a HIPStream \<Rightarrow> error + 'a HIPStream" where
  "init_arrays rt initA initB initC st =
     (case launch (grid_of (array_size st)) TBSIZE (init_kernel initA initB initC)
             (d_a st, d_b st, d_c st) of
        Inl e \<Rightarrow> Inl e
      | Inr (a, b, c) \<Rightarrow>
          HIP_CHECK (hipGetLastError rt) (HIP_CHECK (hipDeviceSynchronize rt)
            (HIP_CHECK (hipGetLastError rt) (Inr (st\<lparr>d_a := a, d_b := b, d_c := c\<rparr>)))))"

text \<open>
  \<^verbatim>\<open>read_arrays\<close>. Without \<^verbatim>\<open>PAGEFAULT\<close> and \<^verbatim>\<open>MANAGED\<close> each host vector receives
  as many elements as it has, by \<^verbatim>\<open>hipMemcpy\<close>; with one of them defined, the first
  \<^verbatim>\<open>array_size\<close> elements are copied one by one.
\<close>

definition memcpy_to_host :: "'a list \<Rightarrow> 'a list \<Rightarrow> error + 'a list" where
  "memcpy_to_host dst src =
     (if length dst \<le> length src then Inr (take (length dst) src) else Inl undefined_behaviour)"

definition read_element ::
  "'a list \<times> 'a list \<times> 'a list \<Rightarrow> nat \<Rightarrow> 'a list \<times> 'a list \<times> 'a list
     \<Rightarrow> error + 'a list \<times> 'a list \<times> 'a list" where
  "read_element dev i = (\<lambda>(a, b, c).
     case dev of (da, db, dc) \<Rightarrow>
     if i < length a \<and> i < length da \<and> i < length b \<and> i < length db \<and> i < length c \<and> i < length dc
     then Inr (a[i := da ! i], b[i := db ! i], c[i := dc ! i])
     else Inl undefined_behaviour)"

definition read_arrays ::
  "bool \<Rightarrow> 'a hip_runtime \<Rightarrow> 'a HIPStream \<Rightarrow> 'a list \<times> 'a list \<times> 'a list
     \<Rightarrow> error + 'a list \<times> 'a list \<times> 'a list" where
  "read_arrays managed rt st = (\<lambda>(a, b, c).
     if managed then
       HIP_CHECK (hipDeviceSynchronize rt)
         (run_seq (read_element (d_a st, d_b st, d_c st)) [0..<nat (array_size st)] (a, b, c))
     else
       (case memcpy_to_host a (d_a st) of Inl e \<Rightarrow> Inl e | Inr a' \<Rightarrow>
        HIP_CHECK (hipMemcpy rt)
       (case memcpy_to_host b (d_b st) of Inl e \<Rightarrow> Inl e | Inr b' \<Rightarrow>
        HIP_CHECK (hipMemcpy rt)
       (case memcpy_to_host c (d_c st) of Inl e \<Rightarrow> Inl e | Inr c' \<Rightarrow>
        HIP_CHECK (hipMemcpy rt) (Inr (a', b', c'))))))"

definition copy_kernel :: "'a list \<Rightarrow> nat \<Rightarrow> nat \<Rightarrow> nat \<Rightarrow> 'a list \<Rightarrow> error + 'a list" where
  "copy_kernel a blockDim blockIdx threadIdx c =
     (let i = global_index blockDim blockIdx threadIdx in
      if i < length a \<and> i < length c then Inr (c[i := a ! i]) else Inl undefined_behaviour)"

definition copy :: "'a hip_runtime \<Rightarrow> 'a HIPStream \<Rightarrow> error + 'a HIPStream" where
  "copy rt st =
     (case launch (grid_of (array_size st)) TBSIZE (copy_kernel (d_a st)) (d_c st) of
        Inl e \<Rightarrow> Inl e
      | Inr c \<Rightarrow>
          HIP_CHECK (hipDeviceSynchronize rt) (HIP_CHECK (hipGetLastError rt)
            (Inr (st\<lparr>d_c := c\<rparr>))))"

text \<open>\<open>startScalar\<close> is a macro of a header that is not among the sources: a parameter.\<close>

definition mul_kernel ::
  "'a::times \<Rightarrow> 'a list \<Rightarrow> nat \<Rightarrow> nat \<Rightarrow> nat \<Rightarrow> 'a list \<Rightarrow> error + 'a list" where
  "mul_kernel startScalar c blockDim blockIdx threadIdx b =
     (let scalar = startScalar; i = global_index blockDim blockIdx threadIdx in
      if i < length b \<and> i < length c then Inr (b[i := scalar * c ! i])
      else Inl undefined_behaviour)"

definition mul :: "'a::times hip_runtime \<Rightarrow> 'a \<Rightarrow> 'a HIPStream \<Rightarrow> error + 'a HIPStream" where
  "mul rt startScalar st =
     (case launch (grid_of (array_size st)) TBSIZE (mul_kernel startScalar (d_c st)) (d_b st) of
        Inl e \<Rightarrow> Inl e
      | Inr b \<Rightarrow>
          HIP_CHECK (hipGetLastError rt) (HIP_CHECK (hipDeviceSynchronize rt)
            (Inr (st\<lparr>d_b := b\<rparr>))))"

definition add_kernel ::
  "'a::plus list \<Rightarrow> 'a list \<Rightarrow> nat \<Rightarrow> nat \<Rightarrow> nat \<Rightarrow> 'a list \<Rightarrow> error + 'a list" where
  "add_kernel a b blockDim blockIdx threadIdx c =
     (let i = global_index blockDim blockIdx threadIdx in
      if i < length a \<and> i < length b \<and> i < length c then Inr (c[i := a ! i + b ! i])
      else Inl undefined_behaviour)"

definition add :: "'a::plus hip_runtime \<Rightarrow> 'a HIPStream \<Rightarrow> error + 'a HIPStream" where
  "add rt st =
     (case launch (grid_of (array_size st)) TBSIZE (add_kernel (d_a st) (d_b st)) (d_c st) of
        Inl e \<Rightarrow> Inl e
      | Inr c \<Rightarrow>
          HIP_CHECK (hipGetLastError rt) (HIP_CHECK (hipDeviceSynchronize rt)
            (Inr (st\<lparr>d_c := c\<rparr>))))"

definition triad_kernel ::
  "'a::{plus,times} \<Rightarrow> 'a list \<Rightarrow> 'a list \<Rightarrow> nat \<Rightarrow> nat \<Rightarrow> nat \<Rightarrow> 'a list \<Rightarrow> error + 'a list" where
  "triad_kernel startScalar b c blockDim blockIdx threadIdx a =
     (let scalar = startScalar; i = global_index blockDim blockIdx threadIdx in
      if i < length a \<and> i < length b \<and> i < length c then Inr (a[i := b ! i + scalar * c ! i])
      else Inl undefined_behaviour)"

definition triad ::
  "'a::{plus,times} hip_runtime \<Rightarrow> 'a \<Rightarrow> 'a HIPStream \<Rightarrow> error + 'a HIPStream" where
  "triad rt startScalar st =
     (case launch (grid_of (array_size st)) TBSIZE (triad_kernel startScalar (d_b st) (d_c st))
             (d_a st) of
        Inl e \<Rightarrow> Inl e
      | Inr a \<Rightarrow>
          HIP_CHECK (hipGetLastError rt) (HIP_CHECK (hipDeviceSynchronize rt)
            (Inr (st\<lparr>d_a := a\<rparr>))))"

definition nstream_kernel ::
  "'a::{plus,times} \<Rightarrow> 'a list \<Rightarrow> 'a list \<Rightarrow> nat \<Rightarrow> nat \<Rightarrow> nat \<Rightarrow> 'a list \<Rightarrow> error + 'a list" where
  "nstream_kernel startScalar b c blockDim blockIdx threadIdx a =
     (let scalar = startScalar; i = global_index blockDim blockIdx threadIdx in
      if i < length a \<and> i < length b \<and> i < length c
      then Inr (a[i := a ! i + (b ! i + scalar * c ! i)])
      else Inl undefined_behaviour)"

definition nstream ::
  "'a::{plus,times} hip_runtime \<Rightarrow> 'a \<Rightarrow> 'a HIPStream \<Rightarrow> error + 'a HIPStream" where
  "nstream rt startScalar st =
     (case launch (grid_of (array_size st)) TBSIZE (nstream_kernel startScalar (d_b st) (d_c st))
             (d_a st) of
        Inl e \<Rightarrow> Inl e
      | Inr a \<Rightarrow>
          HIP_CHECK (hipGetLastError rt) (HIP_CHECK (hipDeviceSynchronize rt)
            (Inr (st\<lparr>d_a := a\<rparr>))))"

section \<open>The dot kernel\<close>

text \<open>
  The grid-stride loop of one lane,
  \<^verbatim>\<open>for (; i < array_size; i += blockDim.x*gridDim.x) tb_sum[local_i] += a[i] * b[i];\<close>
  with \<open>acc\<close> for \<^verbatim>\<open>tb_sum[local_i]\<close> and \<open>asize\<close> for the kernel's argument
  \<^verbatim>\<open>array_size\<close>, converted to \<^verbatim>\<open>size_t\<close> as the comparison does. A read outside
  \<open>a\<close> or \<open>b\<close> is undefined behaviour, and so is a stride of zero, with which the
  loop never ends. The index is a \<^verbatim>\<open>size_t\<close>: it could wrap only from an index
  above \<open>2^64 - 2^32\<close> that is still inside both buffers, which no buffer allocated
  with a \<^verbatim>\<open>size_t\<close> byte count has; the model gives that case the same error value
  instead of following the wrapped index.
\<close>

function dot_loop ::
  "'a::{plus,times} list \<Rightarrow> 'a list \<Rightarrow> nat \<Rightarrow> nat \<Rightarrow> nat \<Rightarrow> 'a \<Rightarrow> error + 'a" where
  "dot_loop a b asize stride i acc =
     (if i < asize then
        (if i < length a \<and> i < length b \<and> 0 < stride \<and> i + stride < 2 ^ 64
         then dot_loop a b asize stride (i + stride) (acc + a ! i * b ! i)
         else Inl undefined_behaviour)
      else Inr acc)"
  by pat_completeness auto
termination
  by (relation "measure (\<lambda>(a, b, asize, stride, i, acc). asize - i)") auto

text \<open>The indices the loop of one lane reads, in order.\<close>

function lane_indices :: "nat \<Rightarrow> nat \<Rightarrow> nat \<Rightarrow> nat list" where
  "lane_indices asize stride i =
     (if i < asize \<and> 0 < stride then i # lane_indices asize stride (i + stride) else [])"
  by pat_completeness auto
termination
  by (relation "measure (\<lambda>(asize, stride, i). asize - i)") auto

text \<open>
  One step of the tree reduction, between two barriers: every lane below \<open>offset\<close> adds
  the entry \<open>offset\<close> places above its own. The entries read are not written in the same
  step.
\<close>

definition reduce_step :: "nat \<Rightarrow> 'a::plus list \<Rightarrow> error + 'a list" where
  "reduce_step offset tb_sum =
     (if 2 * offset \<le> length tb_sum
      then Inr (map (\<lambda>local_i. if local_i < offset
                               then tb_sum ! local_i + tb_sum ! (local_i + offset)
                               else tb_sum ! local_i) [0..<length tb_sum])
      else Inl undefined_behaviour)"

function tree_reduce :: "nat \<Rightarrow> 'a::plus list \<Rightarrow> error + 'a list" where
  "tree_reduce offset tb_sum =
     (if 0 < offset
      then (case reduce_step offset tb_sum of
              Inl e \<Rightarrow> Inl e
            | Inr tb_sum' \<Rightarrow> tree_reduce (offset div 2) tb_sum')
      else Inr tb_sum)"
  by pat_completeness auto
termination
  by (relation "measure (\<lambda>(offset, tb_sum). offset)") auto

fun collect :: "(error + 'a) list \<Rightarrow> error + 'a list" where
  "collect [] = Inr []"
| "collect (r # rs) =
     (case r of
        Inl e \<Rightarrow> Inl e
      | Inr x \<Rightarrow> (case collect rs of Inl e \<Rightarrow> Inl e | Inr xs \<Rightarrow> Inr (x # xs)))"

text \<open>
  One work group of \<^verbatim>\<open>dot_kernel\<close>, up to the last barrier: every lane runs its loop
  from the additive identity, then the tree reduction folds the \<open>blockDim\<close> partial sums.
  The result is the shared array \<^verbatim>\<open>tb_sum\<close>, which has \<open>TBSIZE\<close> entries.
\<close>

definition dot_group ::
  "'a::{zero,plus,times} list \<Rightarrow> 'a list \<Rightarrow> int \<Rightarrow> nat \<Rightarrow> nat \<Rightarrow> nat \<Rightarrow> error + 'a list" where
  "dot_group a b asize blockDim gridDim blockIdx =
     (if TBSIZE < blockDim then Inl undefined_behaviour
      else
        case collect (map (\<lambda>local_i.
               dot_loop a b (to_size_t asize) (wrap_unsigned (blockDim * gridDim))
                 (global_index blockDim blockIdx local_i) 0) [0..<blockDim]) of
          Inl e \<Rightarrow> Inl e
        | Inr tb_sum \<Rightarrow> tree_reduce (blockDim div 2) tb_sum)"

text \<open>
  The end of \<^verbatim>\<open>dot_kernel\<close>: lane 0 stores the group's total at \<^verbatim>\<open>sum[blockIdx.x]\<close>
  (\<open>sum_buf\<close> here).
\<close>

definition dot_kernel ::
  "'a::{zero,plus,times} list \<Rightarrow> 'a list \<Rightarrow> int \<Rightarrow> nat \<Rightarrow> nat \<Rightarrow> nat \<Rightarrow> 'a list
     \<Rightarrow> error + 'a list" where
  "dot_kernel a b asize blockDim gridDim blockIdx sum_buf =
     (case dot_group a b asize blockDim gridDim blockIdx of
        Inl e \<Rightarrow> Inl e
      | Inr tb_sum \<Rightarrow>
          if blockDim = 0 then Inr sum_buf
          else if blockIdx < length sum_buf then Inr (sum_buf[blockIdx := tb_sum ! 0])
          else Inl undefined_behaviour)"

text \<open>
  \<^verbatim>\<open>HIPStream<T>::dot\<close>: the launch over \<^verbatim>\<open>dot_num_blocks\<close> groups, then the host adds
  \<^verbatim>\<open>sums[0]\<close>, ..., \<^verbatim>\<open>sums[dot_num_blocks - 1]\<close> in this order, starting from zero.
\<close>

definition dot ::
  "'a::{zero,plus,times} hip_runtime \<Rightarrow> 'a HIPStream \<Rightarrow> error + 'a \<times> 'a HIPStream" where
  "dot rt st =
     (let gridDim = to_unsigned (dot_num_blocks st) in
      case run_seq (dot_kernel (d_a st) (d_b st) (array_size st) TBSIZE gridDim)
             [0..<gridDim] (sums_buf st) of
        Inl e \<Rightarrow> Inl e
      | Inr sums' \<Rightarrow>
          HIP_CHECK (hipGetLastError rt) (HIP_CHECK (hipDeviceSynchronize rt)
            (if nat (dot_num_blocks st) \<le> length sums'
             then Inr (foldl (+) 0 (take (nat (dot_num_blocks st)) sums'), st\<lparr>sums_buf := sums'\<rparr>)
             else Inl undefined_behaviour)))"

section \<open>The state of a backend\<close>

text \<open>
  What the constructor establishes for a non-negative array size (lemma
  \<open>HIPStream_new_consistent\<close> below) and what every operation keeps: the array size is a
  multiple of \<open>TBSIZE\<close> that fits a C \<^verbatim>\<open>int\<close>, the three device buffers have that many
  elements, and the buffer of partial sums has one element per work group of the dot
  kernel.
\<close>

definition consistent :: "'a HIPStream \<Rightarrow> bool" where
  "consistent st \<longleftrightarrow>
     0 \<le> array_size st \<and> array_size st < 2 ^ 31 \<and> int TBSIZE dvd array_size st \<and>
     length (d_a st) = nat (array_size st) \<and>
     length (d_b st) = nat (array_size st) \<and>
     length (d_c st) = nat (array_size st) \<and>
     0 \<le> dot_num_blocks st \<and> dot_num_blocks st < 2 ^ 22 \<and>
     length (sums_buf st) = nat (dot_num_blocks st)"

text \<open>Every runtime call of the member functions succeeds.\<close>

definition runtime_ok :: "'a hip_runtime \<Rightarrow> bool" where
  "runtime_ok rt \<longleftrightarrow>
     hipGetLastError rt = hipSuccess \<and> hipDeviceSynchronize rt = hipSuccess \<and>
     hipMemcpy rt = hipSuccess"

section \<open>Observations on the log of the constructor\<close>

text \<open>Which of the logged calls allocate memory.\<close>

fun is_device_alloc :: "hip_call \<Rightarrow> bool" where
  "is_device_alloc (Malloc _) = True"
| "is_device_alloc _ = False"

fun is_host_alloc :: "hip_call \<Rightarrow> bool" where
  "is_host_alloc (HostMalloc _) = True"
| "is_host_alloc _ = False"

text \<open>A runtime for the examples: one device per entry of \<open>mems\<close>, device \<open>d\<close> with
  \<open>mems ! d\<close> bytes; every call on a device in range succeeds, a call on another device
  fails; fresh memory holds zeros.\<close>

definition example_runtime :: "nat list \<Rightarrow> 'a::zero hip_runtime" where
  "example_runtime mems =
     \<lparr> hipGetDeviceCount = (hipSuccess, int (length mems)),
       hipSetDevice =
         (\<lambda>d. if 0 \<le> d \<and> d < int (length mems) then hipSuccess else hipFailure 101),
       hipGetDeviceProperties =
         (\<lambda>d. if 0 \<le> d \<and> d < int (length mems)
              then (hipSuccess, \<lparr> name = ''gpu'', totalGlobalMem = mems ! nat d \<rparr>)
              else (hipFailure 101, \<lparr> name = [], totalGlobalMem = 0 \<rparr>)),
       hipDriverGetVersion = (hipSuccess, 60000),
       hipHostMalloc = (\<lambda>_. hipSuccess),
       hipMalloc = (\<lambda>_ _. hipSuccess),
       hipGetLastError = hipSuccess,
       hipDeviceSynchronize = hipSuccess,
       hipMemcpy = hipSuccess,
       device_garbage = (\<lambda>_ _. 0),
       host_garbage = (\<lambda>_. 0) \<rparr>"

text \<open>A backend for the examples: 8192 elements, \<open>groups\<close> work groups for the dot kernel,
  the three arrays filled with \<open>x\<close>, \<open>y\<close> and \<open>z\<close>, the partial sums with zeros.\<close>

definition example_state :: "nat \<Rightarrow> 'a \<Rightarrow> 'a \<Rightarrow> 'a \<Rightarrow> 'a::zero HIPStream" where
  "example_state groups x y z =
     \<lparr> array_size = 8192, dot_num_blocks = int groups,
       d_a = replicate 8192 x, d_b = replicate 8192 y, d_c = replicate 8192 z,
       sums_buf = replicate groups 0 \<rparr>"

text \<open>The backend that construction returns for 2048 elements of 4 bytes, with 4 elements
  per lane of the dot kernel, on the example runtime.\<close>

definition example_backend :: "'a::zero HIPStream" where
  "example_backend =
     \<lparr> array_size = 2048, dot_num_blocks = 1,
       d_a = fresh_buffer (\<lambda>_. 0) 4 8192, d_b = fresh_buffer (\<lambda>_. 0) 4 8192,
       d_c = fresh_buffer (\<lambda>_. 0) 4 8192, sums_buf = fresh_buffer (\<lambda>_. 0) 4 4 \<rparr>"

text \<open>\<open>R\<close> invocations of one operation in a row; the first failure ends the run.\<close>

fun run_times :: "nat \<Rightarrow> ('s \<Rightarrow> error + 's) \<Rightarrow> 's \<Rightarrow> error + 's" where
  "run_times 0 op s = Inr s"
| "run_times (Suc R) op s = (case op s of Inl e \<Rightarrow> Inl e | Inr s' \<Rightarrow> run_times R op s')"

text \<open>The loops are unfolded one iteration at a time, where a proof asks for it.\<close>

declare dot_loop.simps [simp del]
declare lane_indices.simps [simp del]
declare tree_reduce.simps [simp del]

section \<open>Arithmetic of the machine types\<close>

lemma smod_eq_0_iff_dvd: "(k::int) smod l = 0 \<longleftrightarrow> l dvd k"
  by (auto simp add: signed_modulo_int_def sgn_if simp flip: dvd_eq_mod_eq_0)

lemma sdiv_nonneg: "0 \<le> k \<Longrightarrow> 0 \<le> l \<Longrightarrow> k sdiv l = k div (l::int)"
  by (auto simp add: signed_divide_int_def sgn_if)

lemma to_size_t_nonneg: "0 \<le> k \<Longrightarrow> k < 2 ^ 31 \<Longrightarrow> to_size_t k = nat k"
  by (simp add: to_size_t_def)

lemma to_unsigned_nonneg: "0 \<le> k \<Longrightarrow> k < 2 ^ 31 \<Longrightarrow> to_unsigned k = nat k"
  by (simp add: to_unsigned_def)

lemma wrap_size_t_small: "n < 2 ^ 64 \<Longrightarrow> wrap_size_t n = n"
  by (simp add: wrap_size_t_def)

lemma wrap_unsigned_small: "n < 2 ^ 32 \<Longrightarrow> wrap_unsigned n = n"
  by (simp add: wrap_unsigned_def)

text \<open>For an array length that fits a C \<^verbatim>\<open>int\<close> and an element of 4 or 8 bytes, neither the
  byte count of the check nor that of a buffer wraps.\<close>

lemma required_bytes:
  assumes "0 \<le> n" "n < 2 ^ 31" "sizeof_T = 4 \<or> sizeof_T = 8"
  shows "wrap_size_t (wrap_size_t (3 * to_size_t n) * sizeof_T) = 3 * nat n * sizeof_T"
proof -
  have n: "to_size_t n = nat n" using assms by (simp add: to_size_t_nonneg)
  have b: "nat n < 2 ^ 31" using assms by (simp add: nat_less_iff)
  then have "3 * nat n < 2 ^ 64" by simp
  moreover have "3 * nat n * sizeof_T < 2 ^ 64" using b assms(3) by auto
  ultimately show ?thesis by (simp add: n wrap_size_t_small)
qed

lemma array_elements:
  assumes "0 \<le> n" "n < 2 ^ 31" "sizeof_T = 4 \<or> sizeof_T = 8"
  shows "wrap_size_t (sizeof_T * to_size_t n) div sizeof_T = nat n"
proof -
  have n: "to_size_t n = nat n" using assms by (simp add: to_size_t_nonneg)
  have b: "nat n < 2 ^ 31" using assms by (simp add: nat_less_iff)
  then have "sizeof_T * nat n < 2 ^ 64" using assms(3) by auto
  then show ?thesis using assms(3) by (auto simp add: n wrap_size_t_small)
qed

section \<open>Construction\<close>

lemmas ctor_defs = HIPStream_new_def HIP_CHECK_log_def getDeviceName_def getDeviceDriver_def

lemmas example_defs =
  example_runtime_def TBSIZE_def to_size_t_def wrap_size_t_def dot_blocks_def Let_def

text \<open>
  Claim C7. An array size that is not an exact multiple of the work-group size \<open>TBSIZE\<close>
  is rejected by the first statement of the constructor: it throws the
  \<^verbatim>\<open>std::runtime_error\<close> "Array size must be a multiple of 1024" (the configuration
  error of the specification), whatever the runtime, the element size and the device
  index are. The log of runtime calls is empty at that point: no call was made, so no
  device memory (and no host memory) was allocated.
\<close>

theorem array_size_not_multiple_rejected:
  assumes "\<not> int TBSIZE dvd ARRAY_SIZE"
  shows "HIPStream_new rt sizeof_T dot_elements_per_lane ARRAY_SIZE device_index =
           ([], Inl (runtime_error ''Array size must be a multiple of 1024''))"
  using assms by (simp add: HIPStream_new_def smod_eq_0_iff_dvd)

theorem array_size_not_multiple_rejected_witness:
  "\<not> int TBSIZE dvd 1000 \<and>
   HIPStream_new (example_runtime [17179869184] :: int hip_runtime) 4 4 1000 0 =
     ([], Inl (runtime_error ''Array size must be a multiple of 1024''))"
proof -
  have h: "\<not> int TBSIZE dvd 1000" by (simp add: TBSIZE_def)
  show ?thesis
    using h array_size_not_multiple_rejected [OF h, of "example_runtime [17179869184] :: int hip_runtime" 4 4 0]
    by simp
qed

text \<open>
  Claim C1, as stated, fails. With one device of 1000 bytes, 4-byte elements and
  \<open>N = 1024\<close> (12288 bytes needed), construction ends with the \<^verbatim>\<open>std::runtime_error\<close>
  "Device does not have enough memory for all 3 buffers", but the host buffer for the
  partial sums has already been requested by \<^verbatim>\<open>hipHostMalloc\<close>: the constructor
  allocates it before it reads the device properties.
\<close>

theorem host_buffer_allocated_before_memory_check:
  "snd (HIPStream_new (example_runtime [1000] :: int hip_runtime) 4 4 1024 0)
     = Inl (runtime_error ''Device does not have enough memory for all 3 buffers'') \<and>
   filter is_host_alloc (fst (HIPStream_new (example_runtime [1000] :: int hip_runtime) 4 4 1024 0))
     = [HostMalloc 4]"
  by (simp add: ctor_defs example_defs)

text \<open>
  Claim C1, amended. Let \<open>N\<close> be a non-negative multiple of \<open>TBSIZE\<close> that fits a C
  \<^verbatim>\<open>int\<close>, the element size 4 or 8 bytes, \<^verbatim>\<open>dot_elements_per_lane\<close> positive (and small
  enough for the group count not to overflow), the device index below the device
  count, and let every runtime call up to the memory check succeed. Let the properties read by the
  check (those of device 0) be the properties of the selected device. If that device's
  total memory is less than \<open>3 \<times> N \<times> sizeof(T)\<close>, construction fails with the
  \<^verbatim>\<open>std::runtime_error\<close> "Device does not have enough memory for all 3 buffers" (the
  resource error of the specification), and the calls made before the failure are
  exactly the seven listed: no \<^verbatim>\<open>hipMalloc\<close> (no device buffer is requested), and one
  \<^verbatim>\<open>hipHostMalloc\<close> for the partial sums.
\<close>

theorem insufficient_memory_rejected_before_device_alloc:
  fixes rt :: "'a hip_runtime"
  assumes "int TBSIZE dvd ARRAY_SIZE" and "0 \<le> ARRAY_SIZE" and "ARRAY_SIZE < 2 ^ 31"
    and "sizeof_T = 4 \<or> sizeof_T = 8"
    and "0 < dot_elements_per_lane"
    and "int TBSIZE * int dot_elements_per_lane + ARRAY_SIZE \<le> 2 ^ 31"
    and "fst (hipGetDeviceCount rt) = hipSuccess"
    and "device_index < snd (hipGetDeviceCount rt)"
    and "hipSetDevice rt device_index = hipSuccess"
    and "fst (hipGetDeviceProperties rt device_index) = hipSuccess"
    and "fst (hipDriverGetVersion rt) = hipSuccess"
    and "sums_bytes = wrap_size_t (sizeof_T * to_size_t (dot_blocks dot_elements_per_lane ARRAY_SIZE))"
    and "hipHostMalloc rt sums_bytes = hipSuccess"
    and "hipGetDeviceProperties rt 0 = hipGetDeviceProperties rt device_index"
    and "totalGlobalMem (snd (hipGetDeviceProperties rt device_index))
           < 3 * nat ARRAY_SIZE * sizeof_T"
  shows "HIPStream_new rt sizeof_T dot_elements_per_lane ARRAY_SIZE device_index =
           ([GetDeviceCount, SetDevice device_index, GetDeviceProperties device_index,
             SetDevice device_index, DriverGetVersion, HostMalloc sums_bytes,
             GetDeviceProperties 0],
            Inl (runtime_error ''Device does not have enough memory for all 3 buffers''))
         \<and> filter is_device_alloc
               (fst (HIPStream_new rt sizeof_T dot_elements_per_lane ARRAY_SIZE device_index)) = []"
proof -
  have "wrap_size_t (wrap_size_t (3 * to_size_t ARRAY_SIZE) * sizeof_T)
          = 3 * nat ARRAY_SIZE * sizeof_T"
    using assms(2-4) by (rule required_bytes)
  then have "HIPStream_new rt sizeof_T dot_elements_per_lane ARRAY_SIZE device_index =
           ([GetDeviceCount, SetDevice device_index, GetDeviceProperties device_index,
             SetDevice device_index, DriverGetVersion, HostMalloc sums_bytes,
             GetDeviceProperties 0],
            Inl (runtime_error ''Device does not have enough memory for all 3 buffers''))"
    using assms by (simp add: ctor_defs smod_eq_0_iff_dvd Let_def)
  then show ?thesis by simp
qed

theorem insufficient_memory_rejected_before_device_alloc_witness:
  "HIPStream_new (example_runtime [1000, 1000] :: int hip_runtime) 8 4 2048 1 =
     ([GetDeviceCount, SetDevice 1, GetDeviceProperties 1, SetDevice 1, DriverGetVersion,
       HostMalloc 8, GetDeviceProperties 0],
      Inl (runtime_error ''Device does not have enough memory for all 3 buffers''))
   \<and> filter is_device_alloc (fst (HIPStream_new (example_runtime [1000, 1000] :: int hip_runtime) 8 4 2048 1)) = []"
  using insufficient_memory_rejected_before_device_alloc
          [of 2048 8 4 "example_runtime [1000, 1000] :: int hip_runtime" 1 8]
  by (simp add: example_defs)

text \<open>
  Claim C2 does not hold of the code: the constructor selects \<open>device_index\<close> but reads
  the properties of device 0 (\<^verbatim>\<open>hipGetDeviceProperties(&props, 0)\<close>). With two devices,
  4-byte elements, \<open>N = 1024\<close> (12288 bytes needed) and device 1 selected:
  when device 0 has 1000 bytes and device 1 has \<open>2^34\<close> (17179869184), construction fails for lack of
  memory although the selected device has enough; when device 0 has \<open>2^34\<close> bytes and
  device 1 has 1000, the check passes and the three buffers are requested although the
  selected device is too small.
\<close>

theorem memory_check_reads_device_0:
  "HIPStream_new (example_runtime [1000, 17179869184] :: int hip_runtime) 4 4 1024 1
     = ([GetDeviceCount, SetDevice 1, GetDeviceProperties 1, SetDevice 1, DriverGetVersion,
         HostMalloc 4, GetDeviceProperties 0],
        Inl (runtime_error ''Device does not have enough memory for all 3 buffers'')) \<and>
   fst (HIPStream_new (example_runtime [17179869184, 1000] :: int hip_runtime) 4 4 1024 1)
     = [GetDeviceCount, SetDevice 1, GetDeviceProperties 1, SetDevice 1, DriverGetVersion,
        HostMalloc 4, GetDeviceProperties 0, Malloc 4096, Malloc 4096, Malloc 4096]"
  by (simp add: ctor_defs example_defs)

text \<open>
  Claim C8 does not hold of the code for negative indices: the guard is
  \<^verbatim>\<open>device_index >= count\<close> only. With two devices and device index \<open>-1\<close> no exception
  is thrown; the index reaches \<^verbatim>\<open>hipSetDevice\<close>, whose failure ends the process through
  \<^verbatim>\<open>HIP_CHECK\<close>. The macro evaluates its argument again for the error message, so
  \<^verbatim>\<open>hipSetDevice(-1)\<close> is called twice before \<^verbatim>\<open>exit(-1)\<close>.
\<close>

theorem negative_device_index_not_rejected:
  "HIPStream_new (example_runtime [17179869184, 17179869184] :: int hip_runtime) 4 4 1024 (- 1)
     = ([GetDeviceCount, SetDevice (- 1), SetDevice (- 1)], Inl exit_failure)"
  by (simp add: ctor_defs example_defs)

text \<open>The part of claim C8 that the guard covers, and what it lets through.\<close>

lemma device_index_too_large_rejected:
  assumes "int TBSIZE dvd ARRAY_SIZE" and "fst (hipGetDeviceCount rt) = hipSuccess"
    and "snd (hipGetDeviceCount rt) \<le> device_index"
  shows "HIPStream_new rt sizeof_T dot_elements_per_lane ARRAY_SIZE device_index =
           ([GetDeviceCount], Inl (runtime_error ''Invalid device index''))"
  using assms by (simp add: ctor_defs smod_eq_0_iff_dvd)

lemma device_index_below_count_passes_guard:
  assumes "device_index < snd (hipGetDeviceCount rt)"
  shows "snd (HIPStream_new rt sizeof_T dot_elements_per_lane ARRAY_SIZE device_index)
           \<noteq> Inl (runtime_error ''Invalid device index'')"
  using assms by (simp add: ctor_defs Let_def)

text \<open>What a successful construction establishes.\<close>

lemma HIPStream_new_Inr:
  fixes rt :: "'a hip_runtime"
  assumes "HIPStream_new rt sizeof_T e n device_index = (tr, Inr st)"
    and "0 \<le> n" and "n < 2 ^ 31" and "sizeof_T = 4 \<or> sizeof_T = 8"
  shows "array_size st = n" and "int TBSIZE dvd n"
    and "length (d_a st) = nat n" and "length (d_b st) = nat n" and "length (d_c st) = nat n"
    and "dot_num_blocks st = dot_blocks e n"
    and "length (sums_buf st) = wrap_size_t (sizeof_T * to_size_t (dot_blocks e n)) div sizeof_T"
proof -
  have "wrap_size_t (sizeof_T * to_size_t n) div sizeof_T = nat n"
    using assms(2-4) by (rule array_elements)
  then show "array_size st = n" and "int TBSIZE dvd n"
    and "length (d_a st) = nat n" and "length (d_b st) = nat n" and "length (d_c st) = nat n"
    and "dot_num_blocks st = dot_blocks e n"
    and "length (sums_buf st) = wrap_size_t (sizeof_T * to_size_t (dot_blocks e n)) div sizeof_T"
    using assms(1)
    by (auto simp add: ctor_defs smod_eq_0_iff_dvd Let_def fresh_buffer_def split: if_splits)
qed

section \<open>The element-wise kernels\<close>

lemma run_seq_append:
  "run_seq body (xs @ ys) s =
     (case run_seq body xs s of Inl e \<Rightarrow> Inl e | Inr s' \<Rightarrow> run_seq body ys s')"
  by (induction xs arbitrary: s) (auto split: sum.splits)

lemma run_seq_map: "run_seq (\<lambda>x. body (f x)) xs s = run_seq body (map f xs) s"
  by (induction xs arbitrary: s) (auto split: sum.splits)

lemma product_upt_Suc:
  "List.product [0..<Suc g] ys = List.product [0..<g] ys @ map (Pair g) ys"
  by (induction g) (simp_all add: product_concat_map)

lemma map_index_threads:
  "map (\<lambda>(blockIdx, threadIdx). blockDim * blockIdx + threadIdx) (threads gridDim blockDim)
     = [0..<gridDim * blockDim]"
proof (induction gridDim)
  case 0
  then show ?case by (simp add: threads_def)
next
  case (Suc g)
  have "map (\<lambda>(blockIdx, threadIdx). blockDim * blockIdx + threadIdx) (map (Pair g) [0..<blockDim])
          = map (\<lambda>t. t + g * blockDim) [0..<blockDim]"
    by (simp add: mult.commute add.commute)
  also have "\<dots> = [g * blockDim..<g * blockDim + blockDim]"
    using map_add_upt [of "g * blockDim" blockDim] by (simp add: add.commute)
  finally have last: "map (\<lambda>(blockIdx, threadIdx). blockDim * blockIdx + threadIdx) (map (Pair g) [0..<blockDim])
          = [g * blockDim..<g * blockDim + blockDim]" .
  have "[0..<Suc g * blockDim] = [0..<g * blockDim] @ [g * blockDim..<g * blockDim + blockDim]"
    using upt_add_eq_append [of 0 "g * blockDim" blockDim] by (simp add: add.commute)
  then show ?case
    using Suc last unfolding threads_def product_upt_Suc map_append by simp
qed

lemma global_index_threads:
  assumes "gridDim * blockDim \<le> 2 ^ 32"
  shows "map (\<lambda>(blockIdx, threadIdx). global_index blockDim blockIdx threadIdx) (threads gridDim blockDim)
     = [0..<gridDim * blockDim]"
proof -
  have "(blockDim * b + t) < 2 ^ 32" if "(b, t) \<in> set (threads gridDim blockDim)" for b t
  proof -
    have "b < gridDim" "t < blockDim" using that by (auto simp add: threads_def)
    then have "blockDim * b + t < blockDim * Suc b" by simp
    also have "\<dots> \<le> blockDim * gridDim" using \<open>b < gridDim\<close> by (intro mult_le_mono2) simp
    finally show ?thesis using assms by (simp add: mult.commute)
  qed
  then have "map (\<lambda>(blockIdx, threadIdx). global_index blockDim blockIdx threadIdx) (threads gridDim blockDim)
     = map (\<lambda>(blockIdx, threadIdx). blockDim * blockIdx + threadIdx) (threads gridDim blockDim)"
    by (auto simp add: global_index_def wrap_unsigned_small)
  then show ?thesis by (simp add: map_index_threads)
qed

lemma launch_by_index:
  assumes "\<And>blockDim blockIdx threadIdx. kern blockDim blockIdx threadIdx = body (global_index blockDim blockIdx threadIdx)"
    and "gridDim * blockDim \<le> 2 ^ 32"
  shows "launch gridDim blockDim kern s = run_seq body [0..<gridDim * blockDim] s"
proof -
  have "launch gridDim blockDim kern s =
          run_seq (\<lambda>x. body (case x of (blockIdx, threadIdx) \<Rightarrow> global_index blockDim blockIdx threadIdx))
            (threads gridDim blockDim) s"
    by (simp add: launch_def assms(1) case_prod_unfold)
  also have "\<dots> = run_seq body (map (\<lambda>(blockIdx, threadIdx). global_index blockDim blockIdx threadIdx) (threads gridDim blockDim)) s"
    by (rule run_seq_map)
  finally show ?thesis by (simp add: global_index_threads [OF assms(2)])
qed

lemma run_seq_pointwise:
  assumes "n \<le> length xs" and "\<And>i. i < n \<Longrightarrow> ok i"
  shows "run_seq (\<lambda>i ys. if i < length ys \<and> ok i then Inr (ys[i := f i (ys ! i)])
                          else Inl undefined_behaviour) [0..<n] xs
           = Inr (map (\<lambda>i. f i (xs ! i)) [0..<n] @ drop n xs)"
  using assms
proof (induction n)
  case 0
  then show ?case by simp
next
  case (Suc n)
  let ?ys = "map (\<lambda>i. f i (xs ! i)) [0..<n] @ drop n xs"
  have len: "length ?ys = length xs" using Suc.prems by simp
  have nth: "?ys ! n = xs ! n" using Suc.prems by (simp add: nth_append)
  have upd: "?ys[n := v] = map (\<lambda>i. f i (xs ! i)) [0..<n] @ v # drop (Suc n) xs" for v
    using Suc.prems by (simp add: list_update_append Cons_nth_drop_Suc [symmetric])
  show ?case
    using Suc by (simp add: run_seq_append len nth upd)
qed


lemma update_next:
  "Suc n \<le> length us \<Longrightarrow>
     (map k [0..<n] @ drop n us)[n := v] = map k [0..<n] @ v # drop (Suc n) us"
  by (simp add: list_update_append Cons_nth_drop_Suc [symmetric])

lemma run_seq_pointwise3:
  assumes "n \<le> length xs" and "n \<le> length ys" and "n \<le> length zs" and "\<And>i. i < n \<Longrightarrow> ok i"
  shows "run_seq (\<lambda>i (a, b, c). if i < length a \<and> i < length b \<and> i < length c \<and> ok i
                          then Inr (a[i := f i], b[i := g i], c[i := h i])
                          else Inl undefined_behaviour) [0..<n] (xs, ys, zs)
           = Inr (map f [0..<n] @ drop n xs, map g [0..<n] @ drop n ys, map h [0..<n] @ drop n zs)"
  using assms
proof (induction n)
  case 0
  then show ?case by simp
next
  case (Suc n)
  show ?case
    using Suc by (simp add: run_seq_append update_next)
qed

lemma map_upt_replicate: "(\<And>i. i < n \<Longrightarrow> f i = c) \<Longrightarrow> map f [0..<n] = replicate n c"
  by (induction n) (simp_all add: replicate_append_same)

lemma map_upt_nth: "n = length xs \<Longrightarrow> map (\<lambda>i. xs ! i) [0..<n] = xs"
  by (simp add: map_nth)

lemma grid_of_consistent:
  assumes "consistent st"
  shows "grid_of (array_size st) * TBSIZE = nat (array_size st)"
    and "grid_of (array_size st) * TBSIZE \<le> 2 ^ 32"
proof -
  let ?n = "array_size st"
  have n: "0 \<le> ?n" "?n < 2 ^ 31" "int TBSIZE dvd ?n" using assms by (simp_all add: consistent_def)
  have "?n sdiv int TBSIZE = ?n div int TBSIZE" using n by (simp add: sdiv_nonneg)
  moreover have "0 \<le> ?n div int TBSIZE" using n by (simp add: pos_imp_zdiv_nonneg_iff TBSIZE_def)
  moreover have "?n div int TBSIZE \<le> ?n" using n unfolding TBSIZE_def by simp
  ultimately have g: "grid_of ?n = nat (?n div int TBSIZE)"
    using n by (simp add: grid_of_def to_unsigned_nonneg)
  have "int (nat (?n div int TBSIZE) * TBSIZE) = ?n"
    using n \<open>0 \<le> ?n div int TBSIZE\<close> by simp
  then show 1: "grid_of ?n * TBSIZE = nat ?n" using g by (metis nat_int)
  have "nat ?n < 2 ^ 31" using n by (simp add: nat_less_iff)
  then show "grid_of ?n * TBSIZE \<le> 2 ^ 32" using 1 by simp
qed

lemma launch_elementwise:
  assumes "consistent st"
    and "\<And>blockDim blockIdx threadIdx. kern blockDim blockIdx threadIdx = body (global_index blockDim blockIdx threadIdx)"
  shows "launch (grid_of (array_size st)) TBSIZE kern s = run_seq body [0..<nat (array_size st)] s"
  using launch_by_index [of kern body "grid_of (array_size st)" TBSIZE s] assms(2)
    grid_of_consistent [OF assms(1)] by simp

lemma launch_init_kernel:
  assumes "consistent st"
  shows "launch (grid_of (array_size st)) TBSIZE (init_kernel initA initB initC) (d_a st, d_b st, d_c st)
           = Inr (replicate (nat (array_size st)) initA, replicate (nat (array_size st)) initB,
                  replicate (nat (array_size st)) initC)"
proof -
  let ?n = "nat (array_size st)"
  have len: "length (d_a st) = ?n" "length (d_b st) = ?n" "length (d_c st) = ?n"
    using assms by (simp_all add: consistent_def)
  have "launch (grid_of (array_size st)) TBSIZE (init_kernel initA initB initC) (d_a st, d_b st, d_c st)
      = run_seq (\<lambda>i (a, b, c). if i < length a \<and> i < length b \<and> i < length c \<and> True
                          then Inr (a[i := initA], b[i := initB], c[i := initC])
                          else Inl undefined_behaviour) [0..<?n] (d_a st, d_b st, d_c st)"
    by (rule launch_elementwise [OF assms]) (simp add: init_kernel_def Let_def)
  also have "\<dots> = Inr (map (\<lambda>_. initA) [0..<?n] @ drop ?n (d_a st),
                        map (\<lambda>_. initB) [0..<?n] @ drop ?n (d_b st),
                        map (\<lambda>_. initC) [0..<?n] @ drop ?n (d_c st))"
    by (rule run_seq_pointwise3) (simp_all add: len)
  finally show ?thesis by (simp add: len map_upt_replicate)
qed

lemma launch_copy_kernel:
  assumes "consistent st"
  shows "launch (grid_of (array_size st)) TBSIZE (copy_kernel (d_a st)) (d_c st) = Inr (d_a st)"
proof -
  let ?n = "nat (array_size st)"
  have len: "length (d_a st) = ?n" "length (d_b st) = ?n" "length (d_c st) = ?n"
    using assms by (simp_all add: consistent_def)
  have "launch (grid_of (array_size st)) TBSIZE (copy_kernel (d_a st)) (d_c st)
      = run_seq (\<lambda>i ys. if i < length ys \<and> i < length (d_a st) then Inr (ys[i := (\<lambda>i _. d_a st ! i) i (ys ! i)])
                          else Inl undefined_behaviour) [0..<?n] (d_c st)"
    by (rule launch_elementwise [OF assms]) (auto simp add: copy_kernel_def Let_def)
  also have "\<dots> = Inr (map (\<lambda>i. d_a st ! i) [0..<?n] @ drop ?n (d_c st))"
    by (rule run_seq_pointwise) (simp_all add: len)
  finally show ?thesis by (simp add: len map_upt_nth)
qed


lemma launch_mul_kernel:
  assumes "consistent st"
  shows "launch (grid_of (array_size st)) TBSIZE (mul_kernel s (d_c st)) (d_b st)
           = Inr (map (\<lambda>i. s * d_c st ! i) [0..<nat (array_size st)])"
proof -
  let ?n = "nat (array_size st)"
  have len: "length (d_a st) = ?n" "length (d_b st) = ?n" "length (d_c st) = ?n"
    using assms by (simp_all add: consistent_def)
  have "launch (grid_of (array_size st)) TBSIZE (mul_kernel s (d_c st)) (d_b st)
      = run_seq (\<lambda>i ys. if i < length ys \<and> i < length (d_c st)
                          then Inr (ys[i := (\<lambda>i _. s * d_c st ! i) i (ys ! i)])
                          else Inl undefined_behaviour) [0..<?n] (d_b st)"
    by (rule launch_elementwise [OF assms]) (auto simp add: mul_kernel_def Let_def)
  also have "\<dots> = Inr (map (\<lambda>i. s * d_c st ! i) [0..<?n] @ drop ?n (d_b st))"
    by (rule run_seq_pointwise) (simp_all add: len)
  finally show ?thesis by (simp add: len)
qed

lemma launch_add_kernel:
  assumes "consistent st"
  shows "launch (grid_of (array_size st)) TBSIZE (add_kernel (d_a st) (d_b st)) (d_c st)
           = Inr (map (\<lambda>i. d_a st ! i + d_b st ! i) [0..<nat (array_size st)])"
proof -
  let ?n = "nat (array_size st)"
  have len: "length (d_a st) = ?n" "length (d_b st) = ?n" "length (d_c st) = ?n"
    using assms by (simp_all add: consistent_def)
  have "launch (grid_of (array_size st)) TBSIZE (add_kernel (d_a st) (d_b st)) (d_c st)
      = run_seq (\<lambda>i ys. if i < length ys \<and> (i < length (d_a st) \<and> i < length (d_b st))
                          then Inr (ys[i := (\<lambda>i _. d_a st ! i + d_b st ! i) i (ys ! i)])
                          else Inl undefined_behaviour) [0..<?n] (d_c st)"
    by (rule launch_elementwise [OF assms]) (auto simp add: add_kernel_def Let_def)
  also have "\<dots> = Inr (map (\<lambda>i. d_a st ! i + d_b st ! i) [0..<?n] @ drop ?n (d_c st))"
    by (rule run_seq_pointwise) (simp_all add: len)
  finally show ?thesis by (simp add: len)
qed

lemma launch_triad_kernel:
  assumes "consistent st"
  shows "launch (grid_of (array_size st)) TBSIZE (triad_kernel s (d_b st) (d_c st)) (d_a st)
           = Inr (map (\<lambda>i. d_b st ! i + s * d_c st ! i) [0..<nat (array_size st)])"
proof -
  let ?n = "nat (array_size st)"
  have len: "length (d_a st) = ?n" "length (d_b st) = ?n" "length (d_c st) = ?n"
    using assms by (simp_all add: consistent_def)
  have "launch (grid_of (array_size st)) TBSIZE (triad_kernel s (d_b st) (d_c st)) (d_a st)
      = run_seq (\<lambda>i ys. if i < length ys \<and> (i < length (d_b st) \<and> i < length (d_c st))
                          then Inr (ys[i := (\<lambda>i _. d_b st ! i + s * d_c st ! i) i (ys ! i)])
                          else Inl undefined_behaviour) [0..<?n] (d_a st)"
    by (rule launch_elementwise [OF assms]) (auto simp add: triad_kernel_def Let_def)
  also have "\<dots> = Inr (map (\<lambda>i. d_b st ! i + s * d_c st ! i) [0..<?n] @ drop ?n (d_a st))"
    by (rule run_seq_pointwise) (simp_all add: len)
  finally show ?thesis by (simp add: len)
qed

lemma launch_nstream_kernel:
  assumes "consistent st"
  shows "launch (grid_of (array_size st)) TBSIZE (nstream_kernel s (d_b st) (d_c st)) (d_a st)
           = Inr (map (\<lambda>i. d_a st ! i + (d_b st ! i + s * d_c st ! i)) [0..<nat (array_size st)])"
proof -
  let ?n = "nat (array_size st)"
  have len: "length (d_a st) = ?n" "length (d_b st) = ?n" "length (d_c st) = ?n"
    using assms by (simp_all add: consistent_def)
  have "launch (grid_of (array_size st)) TBSIZE (nstream_kernel s (d_b st) (d_c st)) (d_a st)
      = run_seq (\<lambda>i ys. if i < length ys \<and> (i < length (d_b st) \<and> i < length (d_c st))
                          then Inr (ys[i := (\<lambda>i x. x + (d_b st ! i + s * d_c st ! i)) i (ys ! i)])
                          else Inl undefined_behaviour) [0..<?n] (d_a st)"
    by (rule launch_elementwise [OF assms]) (auto simp add: nstream_kernel_def Let_def)
  also have "\<dots> = Inr (map (\<lambda>i. d_a st ! i + (d_b st ! i + s * d_c st ! i)) [0..<?n] @ drop ?n (d_a st))"
    by (rule run_seq_pointwise) (simp_all add: len)
  finally show ?thesis by (simp add: len)
qed

lemma init_arrays_result:
  assumes "consistent st"
  shows "init_arrays rt initA initB initC st =
           HIP_CHECK (hipGetLastError rt) (HIP_CHECK (hipDeviceSynchronize rt)
             (HIP_CHECK (hipGetLastError rt)
               (Inr (st\<lparr>d_a := replicate (nat (array_size st)) initA,
                         d_b := replicate (nat (array_size st)) initB,
                         d_c := replicate (nat (array_size st)) initC\<rparr>))))"
  by (simp add: init_arrays_def launch_init_kernel [OF assms])

lemma copy_result:
  assumes "consistent st"
  shows "copy rt st =
           HIP_CHECK (hipDeviceSynchronize rt) (HIP_CHECK (hipGetLastError rt)
             (Inr (st\<lparr>d_c := d_a st\<rparr>)))"
  by (simp add: copy_def launch_copy_kernel [OF assms])

lemma mul_result:
  assumes "consistent st"
  shows "mul rt s st =
           HIP_CHECK (hipGetLastError rt) (HIP_CHECK (hipDeviceSynchronize rt)
             (Inr (st\<lparr>d_b := map (\<lambda>i. s * d_c st ! i) [0..<nat (array_size st)]\<rparr>)))"
  by (simp add: mul_def launch_mul_kernel [OF assms])

lemma add_result:
  assumes "consistent st"
  shows "add rt st =
           HIP_CHECK (hipGetLastError rt) (HIP_CHECK (hipDeviceSynchronize rt)
             (Inr (st\<lparr>d_c := map (\<lambda>i. d_a st ! i + d_b st ! i) [0..<nat (array_size st)]\<rparr>)))"
  by (simp add: add_def launch_add_kernel [OF assms])

lemma triad_result:
  assumes "consistent st"
  shows "triad rt s st =
           HIP_CHECK (hipGetLastError rt) (HIP_CHECK (hipDeviceSynchronize rt)
             (Inr (st\<lparr>d_a := map (\<lambda>i. d_b st ! i + s * d_c st ! i) [0..<nat (array_size st)]\<rparr>)))"
  by (simp add: triad_def launch_triad_kernel [OF assms])

lemma nstream_result:
  assumes "consistent st"
  shows "nstream rt s st =
           HIP_CHECK (hipGetLastError rt) (HIP_CHECK (hipDeviceSynchronize rt)
             (Inr (st\<lparr>d_a := map (\<lambda>i. d_a st ! i + (d_b st ! i + s * d_c st ! i))
                                [0..<nat (array_size st)]\<rparr>)))"
  by (simp add: nstream_def launch_nstream_kernel [OF assms])

lemma HIP_CHECK_ok: "HIP_CHECK hipSuccess k = k"
  by (simp add: HIP_CHECK_def)

lemma HIP_CHECK_not_ub: "k \<noteq> Inl undefined_behaviour \<Longrightarrow> HIP_CHECK stat k \<noteq> Inl undefined_behaviour"
  by (simp add: HIP_CHECK_def)

lemma map_nth_take: "n \<le> length xs \<Longrightarrow> map (\<lambda>i. xs ! i) [0..<n] = take n xs"
  by (rule map_upt_eqI) simp_all

lemma run_seq_read_element:
  assumes "n \<le> length xs" "n \<le> length ys" "n \<le> length zs"
    and "n \<le> length da" "n \<le> length db" "n \<le> length dc"
  shows "run_seq (read_element (da, db, dc)) [0..<n] (xs, ys, zs)
           = Inr (take n da @ drop n xs, take n db @ drop n ys, take n dc @ drop n zs)"
proof -
  have "run_seq (read_element (da, db, dc)) [0..<n] (xs, ys, zs)
      = run_seq (\<lambda>i (a, b, c). if i < length a \<and> i < length b \<and> i < length c
                                    \<and> (i < length da \<and> i < length db \<and> i < length dc)
                          then Inr (a[i := da ! i], b[i := db ! i], c[i := dc ! i])
                          else Inl undefined_behaviour) [0..<n] (xs, ys, zs)"
    by (rule arg_cong [where f = "\<lambda>body. run_seq body [0..<n] (xs, ys, zs)"])
       (auto simp add: read_element_def fun_eq_iff)
  also have "\<dots> = Inr (map (\<lambda>i. da ! i) [0..<n] @ drop n xs, map (\<lambda>i. db ! i) [0..<n] @ drop n ys,
                        map (\<lambda>i. dc ! i) [0..<n] @ drop n zs)"
    by (rule run_seq_pointwise3) (use assms in simp_all)
  finally show ?thesis using assms by (simp add: map_nth_take)
qed

lemma read_arrays_result:
  assumes "consistent st" and "runtime_ok rt"
    and "length a = nat (array_size st)" and "length b = nat (array_size st)"
    and "length c = nat (array_size st)"
  shows "read_arrays managed rt st (a, b, c) = Inr (d_a st, d_b st, d_c st)"
proof -
  have len: "length (d_a st) = nat (array_size st)" "length (d_b st) = nat (array_size st)"
    "length (d_c st) = nat (array_size st)"
    using assms(1) by (simp_all add: consistent_def)
  show ?thesis
  proof (cases managed)
    case True
    then show ?thesis
      using assms(2-) len
      by (simp add: read_arrays_def runtime_ok_def HIP_CHECK_ok run_seq_read_element)
  next
    case False
    then show ?thesis
      using assms(2-) len
      by (simp add: read_arrays_def runtime_ok_def HIP_CHECK_ok memcpy_to_host_def)
  qed
qed

lemma consistent_example_state: "groups < 2 ^ 22 \<Longrightarrow> consistent (example_state groups x y z)"
  by (simp add: consistent_def example_state_def TBSIZE_def)

lemma runtime_ok_example: "runtime_ok (example_runtime mems)"
  by (simp add: runtime_ok_def example_runtime_def)


section \<open>The dot kernel: every group returns\<close>

lemma lane_indices_bounded: "list_all (\<lambda>i. i < asize) (lane_indices asize stride i)"
  by (induction asize stride i rule: lane_indices.induct) (subst lane_indices.simps, simp)

lemma dot_loop_lane_indices:
  assumes "asize \<le> length a" and "asize \<le> length b" and "asize + stride \<le> 2 ^ 64"
    and "0 < stride"
  shows "dot_loop a b asize stride i acc
           = Inr (foldl (\<lambda>acc i. acc + a ! i * b ! i) acc (lane_indices asize stride i))"
  using assms
proof (induction a b asize stride i acc rule: dot_loop.induct)
  case (1 a b asize stride i acc)
  show ?case
  proof (cases "i < asize")
    case True
    then have "i < length a \<and> i < length b \<and> 0 < stride \<and> i + stride < 2 ^ 64"
      using "1.prems" by simp
    then show ?thesis
      using True "1.IH" "1.prems"
      by (subst dot_loop.simps, subst lane_indices.simps) simp
  next
    case False
    then show ?thesis
      by (subst dot_loop.simps, subst lane_indices.simps) simp
  qed
qed

lemma collect_map_Inr: "(\<And>x. x \<in> set xs \<Longrightarrow> f x = Inr (g x)) \<Longrightarrow> collect (map f xs) = Inr (map g xs)"
  by (induction xs) simp_all

lemma reduce_step_Inr:
  "2 * offset \<le> length tb \<Longrightarrow> \<exists>tb'. reduce_step offset tb = Inr tb' \<and> length tb' = length tb"
  by (simp add: reduce_step_def)

lemma tree_reduce_Inr:
  "2 * offset \<le> length tb \<Longrightarrow> \<exists>tb'. tree_reduce offset tb = Inr tb' \<and> length tb' = length tb"
proof (induction offset tb rule: tree_reduce.induct)
  case (1 offset tb)
  show ?case
  proof (cases "0 < offset")
    case True
    obtain tb1 where tb1: "reduce_step offset tb = Inr tb1" "length tb1 = length tb"
      using reduce_step_Inr [OF "1.prems"] by blast
    have "2 * (offset div 2) \<le> length tb1" using "1.prems" tb1 by simp
    then obtain tb' where "tree_reduce (offset div 2) tb1 = Inr tb'" "length tb' = length tb1"
      using "1.IH" [OF True tb1(1)] by blast
    then show ?thesis using True tb1 by (subst tree_reduce.simps) simp
  next
    case False
    then show ?thesis by (subst tree_reduce.simps) simp
  qed
qed


lemma run_seq_length:
  assumes "\<And>i s. i \<in> set is \<Longrightarrow> length s = m \<Longrightarrow> \<exists>s'. body i s = Inr s' \<and> length s' = m"
    and "length s = m"
  shows "\<exists>s'. run_seq body is s = Inr s' \<and> length s' = m"
  using assms
proof (induction "is" arbitrary: s)
  case Nil
  then show ?case by simp
next
  case (Cons i "is")
  obtain s1 where s1: "body i s = Inr s1" "length s1 = m"
    using Cons.prems(1) [of i s] Cons.prems(2) by auto
  have "\<exists>s'. run_seq body is s1 = Inr s' \<and> length s' = m"
    by (rule Cons.IH) (use Cons.prems(1) s1 in auto)
  then show ?case using s1 by simp
qed

text \<open>The launch parameters of the dot kernel in a consistent state.\<close>

lemma dot_launch_parameters:
  assumes "consistent st" and "blockIdx < nat (dot_num_blocks st)" and "local_i < TBSIZE"
  shows "to_unsigned (dot_num_blocks st) = nat (dot_num_blocks st)"
    and "to_size_t (array_size st) = nat (array_size st)"
    and "wrap_unsigned (TBSIZE * nat (dot_num_blocks st)) = TBSIZE * nat (dot_num_blocks st)"
    and "global_index TBSIZE blockIdx local_i = TBSIZE * blockIdx + local_i"
    and "0 < TBSIZE * nat (dot_num_blocks st)"
    and "nat (array_size st) + TBSIZE * nat (dot_num_blocks st) \<le> 2 ^ 64"
proof -
  let ?g = "nat (dot_num_blocks st)"
  have g: "0 \<le> dot_num_blocks st" "dot_num_blocks st < 2 ^ 22"
    and n: "0 \<le> array_size st" "array_size st < 2 ^ 31"
    using assms(1) by (simp_all add: consistent_def)
  have g': "?g < 2 ^ 22" using g by (simp add: nat_less_iff)
  have n': "nat (array_size st) < 2 ^ 31" using n by (simp add: nat_less_iff)
  show "to_unsigned (dot_num_blocks st) = ?g" using g by (simp add: to_unsigned_def)
  show "to_size_t (array_size st) = nat (array_size st)" using n by (simp add: to_size_t_nonneg)
  have s: "TBSIZE * ?g < 2 ^ 32" using g' by (simp add: TBSIZE_def)
  then show "wrap_unsigned (TBSIZE * ?g) = TBSIZE * ?g" by (simp add: wrap_unsigned_small)
  have "TBSIZE * blockIdx + local_i < TBSIZE * Suc blockIdx" using assms(3) by simp
  also have "\<dots> \<le> TBSIZE * ?g" using assms(2) by (intro mult_le_mono2) simp
  finally have "TBSIZE * blockIdx + local_i < 2 ^ 32" using s by simp
  then show "global_index TBSIZE blockIdx local_i = TBSIZE * blockIdx + local_i"
    by (simp add: global_index_def wrap_unsigned_small)
  show "0 < TBSIZE * ?g" using assms(2) by (simp add: TBSIZE_def)
  show "nat (array_size st) + TBSIZE * ?g \<le> 2 ^ 64" using s n' by simp
qed

lemma dot_group_lanes:
  assumes "consistent st" and "blockIdx < nat (dot_num_blocks st)"
  shows "dot_group (d_a st) (d_b st) (array_size st) TBSIZE (nat (dot_num_blocks st)) blockIdx
           = tree_reduce (TBSIZE div 2)
               (map (\<lambda>local_i. foldl (\<lambda>acc i. acc + d_a st ! i * d_b st ! i) 0
                       (lane_indices (nat (array_size st)) (TBSIZE * nat (dot_num_blocks st))
                          (TBSIZE * blockIdx + local_i)))
                  [0..<TBSIZE])"
proof -
  let ?n = "nat (array_size st)" and ?s = "TBSIZE * nat (dot_num_blocks st)"
  have len: "?n \<le> length (d_a st)" "?n \<le> length (d_b st)"
    using assms(1) by (simp_all add: consistent_def)
  have "collect (map (\<lambda>local_i.
               dot_loop (d_a st) (d_b st) (to_size_t (array_size st))
                 (wrap_unsigned (TBSIZE * nat (dot_num_blocks st)))
                 (global_index TBSIZE blockIdx local_i) 0) [0..<TBSIZE])
      = Inr (map (\<lambda>local_i. foldl (\<lambda>acc i. acc + d_a st ! i * d_b st ! i) 0
                       (lane_indices ?n ?s (TBSIZE * blockIdx + local_i))) [0..<TBSIZE])"
  proof (rule collect_map_Inr)
    fix local_i assume "local_i \<in> set [0..<TBSIZE]"
    then have l: "local_i < TBSIZE" by simp
    note p = dot_launch_parameters [OF assms l]
    show "dot_loop (d_a st) (d_b st) (to_size_t (array_size st))
                 (wrap_unsigned (TBSIZE * nat (dot_num_blocks st)))
                 (global_index TBSIZE blockIdx local_i) 0
          = Inr (foldl (\<lambda>acc i. acc + d_a st ! i * d_b st ! i) 0
                       (lane_indices ?n ?s (TBSIZE * blockIdx + local_i)))"
      unfolding p(2,3,4) using len p(6) p(5) by (rule dot_loop_lane_indices)
  qed
  then show ?thesis by (simp add: dot_group_def)
qed

lemma dot_group_Inr:
  assumes "consistent st" and "blockIdx < nat (dot_num_blocks st)"
  shows "\<exists>tb. dot_group (d_a st) (d_b st) (array_size st) TBSIZE (nat (dot_num_blocks st)) blockIdx
           = Inr tb \<and> length tb = TBSIZE"
  unfolding dot_group_lanes [OF assms]
  using tree_reduce_Inr [of "TBSIZE div 2"
     "map (\<lambda>local_i. foldl (\<lambda>acc i. acc + d_a st ! i * d_b st ! i) 0
                       (lane_indices (nat (array_size st)) (TBSIZE * nat (dot_num_blocks st))
                          (TBSIZE * blockIdx + local_i))) [0..<TBSIZE]"]
  by simp

lemma dot_kernel_Inr:
  assumes "consistent st" and "blockIdx < nat (dot_num_blocks st)"
    and "length s = nat (dot_num_blocks st)"
  shows "\<exists>s'. dot_kernel (d_a st) (d_b st) (array_size st) TBSIZE (nat (dot_num_blocks st)) blockIdx s
           = Inr s' \<and> length s' = nat (dot_num_blocks st)"
proof -
  obtain tb where "dot_group (d_a st) (d_b st) (array_size st) TBSIZE (nat (dot_num_blocks st)) blockIdx
           = Inr tb"
    using dot_group_Inr [OF assms(1,2)] by blast
  then show ?thesis using assms(2,3) by (simp add: dot_kernel_def TBSIZE_def)
qed

lemma dot_result:
  assumes "consistent st"
  shows "\<exists>s'. length s' = nat (dot_num_blocks st) \<and>
           dot rt st =
             HIP_CHECK (hipGetLastError rt) (HIP_CHECK (hipDeviceSynchronize rt)
               (Inr (foldl (+) 0 s', st\<lparr>sums_buf := s'\<rparr>)))"
proof -
  let ?g = "nat (dot_num_blocks st)"
  have g: "to_unsigned (dot_num_blocks st) = ?g" "0 \<le> dot_num_blocks st"
    using assms by (simp_all add: consistent_def to_unsigned_def)
  have len: "length (sums_buf st) = ?g" using assms by (simp add: consistent_def)
  have "\<exists>s'. run_seq (dot_kernel (d_a st) (d_b st) (array_size st) TBSIZE ?g) [0..<?g] (sums_buf st)
           = Inr s' \<and> length s' = ?g"
    by (rule run_seq_length) (use dot_kernel_Inr [OF assms] len in auto)
  then obtain s' where "run_seq (dot_kernel (d_a st) (d_b st) (array_size st) TBSIZE ?g) [0..<?g] (sums_buf st)
           = Inr s'" "length s' = ?g" by blast
  then have "length s' = ?g \<and>
           dot rt st =
             HIP_CHECK (hipGetLastError rt) (HIP_CHECK (hipDeviceSynchronize rt)
               (Inr (foldl (+) 0 s', st\<lparr>sums_buf := s'\<rparr>)))"
    by (simp add: dot_def g Let_def)
  then show ?thesis by (rule exI)
qed

lemma dot_blocks_bounds:
  assumes "0 \<le> n" and "0 < e" and "int TBSIZE * int e + n \<le> 2 ^ 31"
  shows "0 \<le> dot_blocks e n" and "dot_blocks e n < 2 ^ 22"
    and "0 < n \<Longrightarrow> 0 < dot_blocks e n"
proof -
  define d where "d = int TBSIZE * int e"
  have d: "1024 \<le> d" using assms(2) by (simp add: d_def TBSIZE_def)
  have eq: "dot_blocks e n = (n + (d - 1)) div d"
    using assms(1) d by (simp add: dot_blocks_def sdiv_nonneg d_def)
  show "0 \<le> dot_blocks e n" using assms(1) d by (simp add: eq pos_imp_zdiv_nonneg_iff)
  have "(n + (d - 1)) div d \<le> (n + (d - 1)) div 1024"
    using assms(1) d by (intro zdiv_mono2) simp_all
  also have "\<dots> < 2 ^ 22" using assms(3) by (simp add: d_def)
  finally show "dot_blocks e n < 2 ^ 22" by (simp add: eq)
  show "0 < dot_blocks e n" if "0 < n"
  proof -
    have "d \<le> n + (d - 1)" using that by simp
    then have "d div d \<le> (n + (d - 1)) div d" by (rule zdiv_mono1) (use d in simp)
    then show ?thesis using d by (simp add: eq)
  qed
qed

lemma HIPStream_new_consistent:
  fixes rt :: "'a hip_runtime"
  assumes "snd (HIPStream_new rt sizeof_T e n device_index) = Inr st"
    and "0 \<le> n" and "sizeof_T = 4 \<or> sizeof_T = 8" and "int TBSIZE * int e + n \<le> 2 ^ 31"
  shows "consistent st" and "array_size st = n" and "dot_num_blocks st = dot_blocks e n"
proof -
  obtain tr where new: "HIPStream_new rt sizeof_T e n device_index = (tr, Inr st)"
    using assms(1) by (cases "HIPStream_new rt sizeof_T e n device_index") simp
  have e: "0 < e"
    using new by (auto simp add: ctor_defs Let_def split: if_splits)
  then have n: "n < 2 ^ 31" using assms(4) by (simp add: TBSIZE_def)
  note f = HIPStream_new_Inr [OF new assms(2) n assms(3)]
  note b = dot_blocks_bounds [OF assms(2) e assms(4)]
  have "dot_blocks e n < 2 ^ 31" using b(2) by simp
  then have "wrap_size_t (sizeof_T * to_size_t (dot_blocks e n)) div sizeof_T = nat (dot_blocks e n)"
    using b(1) assms(3) by (intro array_elements)
  then show "consistent st"
    using f b assms(2) n by (simp add: consistent_def)
  show "array_size st = n" "dot_num_blocks st = dot_blocks e n" by (rule f)+
qed

text \<open>A constructed backend with at least one element has at least one work group for
  the dot kernel.\<close>

lemma HIPStream_new_groups:
  fixes rt :: "'a hip_runtime"
  assumes "snd (HIPStream_new rt sizeof_T e n device_index) = Inr st"
    and "0 < n" and "sizeof_T = 4 \<or> sizeof_T = 8" and "int TBSIZE * int e + n \<le> 2 ^ 31"
  shows "0 < dot_num_blocks st"
proof -
  have n: "0 \<le> n" using assms(2) by simp
  have e: "0 < e"
    using assms(1)
    by (cases "HIPStream_new rt sizeof_T e n device_index")
       (auto simp add: ctor_defs Let_def split: if_splits)
  show ?thesis
    using HIPStream_new_consistent(3) [OF assms(1) n assms(3,4)]
      dot_blocks_bounds(3) [OF n e assms(4) assms(2)]
    by simp
qed

lemma kernels_ok:
  assumes "consistent st" and "runtime_ok rt"
  shows "init_arrays rt initA initB initC st =
           Inr (st\<lparr>d_a := replicate (nat (array_size st)) initA,
                    d_b := replicate (nat (array_size st)) initB,
                    d_c := replicate (nat (array_size st)) initC\<rparr>)"
    and "copy rt st = Inr (st\<lparr>d_c := d_a st\<rparr>)"
    and "mul rt s st = Inr (st\<lparr>d_b := map (\<lambda>i. s * d_c st ! i) [0..<nat (array_size st)]\<rparr>)"
    and "add rt st = Inr (st\<lparr>d_c := map (\<lambda>i. d_a st ! i + d_b st ! i) [0..<nat (array_size st)]\<rparr>)"
    and "triad rt s st =
           Inr (st\<lparr>d_a := map (\<lambda>i. d_b st ! i + s * d_c st ! i) [0..<nat (array_size st)]\<rparr>)"
    and "nstream rt s st =
           Inr (st\<lparr>d_a := map (\<lambda>i. d_a st ! i + (d_b st ! i + s * d_c st ! i))
                              [0..<nat (array_size st)]\<rparr>)"
    and "\<exists>s'. dot rt st = Inr (foldl (+) 0 s', st\<lparr>sums_buf := s'\<rparr>)"
proof -
  have ok: "hipGetLastError rt = hipSuccess" "hipDeviceSynchronize rt = hipSuccess"
    using assms(2) by (simp_all add: runtime_ok_def)
  show "init_arrays rt initA initB initC st =
           Inr (st\<lparr>d_a := replicate (nat (array_size st)) initA,
                    d_b := replicate (nat (array_size st)) initB,
                    d_c := replicate (nat (array_size st)) initC\<rparr>)"
    by (simp add: init_arrays_result [OF assms(1)] ok HIP_CHECK_ok)
  show "copy rt st = Inr (st\<lparr>d_c := d_a st\<rparr>)"
    by (simp add: copy_result [OF assms(1)] ok HIP_CHECK_ok)
  show "mul rt s st = Inr (st\<lparr>d_b := map (\<lambda>i. s * d_c st ! i) [0..<nat (array_size st)]\<rparr>)"
    by (simp add: mul_result [OF assms(1)] ok HIP_CHECK_ok)
  show "add rt st = Inr (st\<lparr>d_c := map (\<lambda>i. d_a st ! i + d_b st ! i) [0..<nat (array_size st)]\<rparr>)"
    by (simp add: add_result [OF assms(1)] ok HIP_CHECK_ok)
  show "triad rt s st =
           Inr (st\<lparr>d_a := map (\<lambda>i. d_b st ! i + s * d_c st ! i) [0..<nat (array_size st)]\<rparr>)"
    by (simp add: triad_result [OF assms(1)] ok HIP_CHECK_ok)
  show "nstream rt s st =
           Inr (st\<lparr>d_a := map (\<lambda>i. d_a st ! i + (d_b st ! i + s * d_c st ! i))
                              [0..<nat (array_size st)]\<rparr>)"
    by (simp add: nstream_result [OF assms(1)] ok HIP_CHECK_ok)
  show "\<exists>s'. dot rt st = Inr (foldl (+) 0 s', st\<lparr>sums_buf := s'\<rparr>)"
    using dot_result [OF assms(1), of rt] by (auto simp add: ok HIP_CHECK_ok)
qed


section \<open>The operations on a consistent backend\<close>

text \<open>
  Claim C9. On a consistent backend (in particular after a successful construction with a
  non-negative array size \<open>N\<close>, a multiple of \<open>TBSIZE\<close>), for every element type and any
  constants \<open>initA\<close>, \<open>initB\<close>, \<open>initC\<close>, with every runtime call succeeding:
  \<^verbatim>\<open>init_arrays\<close> returns, and \<^verbatim>\<open>read_arrays\<close> called next on three host vectors of
  \<open>N\<close> elements returns \<open>N\<close> copies of \<open>initA\<close>, \<open>N\<close> copies of \<open>initB\<close> and \<open>N\<close> copies
  of \<open>initC\<close>, in both builds of \<^verbatim>\<open>read_arrays\<close>.
\<close>

theorem init_then_read_back:
  assumes "consistent st" and "runtime_ok rt"
    and "length a = nat (array_size st)" and "length b = nat (array_size st)"
    and "length c = nat (array_size st)"
  shows "init_arrays rt initA initB initC st =
           Inr (st\<lparr>d_a := replicate (nat (array_size st)) initA,
                    d_b := replicate (nat (array_size st)) initB,
                    d_c := replicate (nat (array_size st)) initC\<rparr>) \<and>
         read_arrays managed rt
             (st\<lparr>d_a := replicate (nat (array_size st)) initA,
                 d_b := replicate (nat (array_size st)) initB,
                 d_c := replicate (nat (array_size st)) initC\<rparr>) (a, b, c) =
           Inr (replicate (nat (array_size st)) initA, replicate (nat (array_size st)) initB,
                replicate (nat (array_size st)) initC)"
proof -
  let ?st = "st\<lparr>d_a := replicate (nat (array_size st)) initA,
                 d_b := replicate (nat (array_size st)) initB,
                 d_c := replicate (nat (array_size st)) initC\<rparr>"
  have init: "init_arrays rt initA initB initC st = Inr ?st"
    using assms(2) by (simp add: init_arrays_result [OF assms(1)] runtime_ok_def HIP_CHECK_ok)
  have c: "consistent ?st" using assms(1) by (simp add: consistent_def)
  have "read_arrays managed rt ?st (a, b, c) = Inr (d_a ?st, d_b ?st, d_c ?st)"
    by (rule read_arrays_result [OF c assms(2)]) (simp_all add: assms)
  then show ?thesis using init by simp
qed

theorem init_then_read_back_witness:
  "init_arrays (example_runtime [17179869184]) 1 2 3 (example_state 2 (0::int) 0 0) =
     Inr (example_state 2 1 2 3) \<and>
   read_arrays False (example_runtime [17179869184]) (example_state 2 1 2 3)
       (replicate 8192 0, replicate 8192 0, replicate 8192 0) =
     Inr (replicate 8192 1, replicate 8192 2, replicate 8192 (3::int))"
  using init_then_read_back [of "example_state 2 (0::int) 0 0" "example_runtime [17179869184]"
          "replicate 8192 0" "replicate 8192 0" "replicate 8192 0" 1 2 3 False]
  by (simp add: consistent_example_state runtime_ok_example) (simp add: example_state_def)

text \<open>
  Claim C4. Extended-Triad (\<^verbatim>\<open>nstream\<close>) reads and writes \<open>a\<close>. The element type is
  arbitrary; \<open>one\<close>, \<open>three\<close> and \<open>five\<close> are elements of it for which the two sums the
  kernel computes come out as \<open>one + (one + one * one) = three\<close> and
  \<open>three + (one + one * one) = five\<close> (as for 1, 3 and 5 in \<^verbatim>\<open>float\<close> and \<^verbatim>\<open>double\<close>,
  where these small integers are exact). After \<^verbatim>\<open>init_arrays(one, one, one)\<close> and with
  \<open>startScalar = one\<close>, the first \<^verbatim>\<open>nstream\<close> leaves \<open>three\<close> in every element of \<open>a\<close>,
  the second leaves \<open>five\<close>; \<open>b\<close> and \<open>c\<close> (and every other member) are as
  \<^verbatim>\<open>init_arrays\<close> left them.
\<close>

theorem nstream_twice_from_ones:
  fixes one three five :: "'a::{plus,times}"
  assumes "consistent st" and "runtime_ok rt"
    and "one + (one + one * one) = three" and "three + (one + one * one) = five"
  defines "n \<equiv> nat (array_size st)"
  defines "st0 \<equiv> st\<lparr>d_a := replicate n one, d_b := replicate n one, d_c := replicate n one\<rparr>"
  shows "init_arrays rt one one one st = Inr st0 \<and>
         nstream rt one st0 = Inr (st0\<lparr>d_a := replicate n three\<rparr>) \<and>
         nstream rt one (st0\<lparr>d_a := replicate n three\<rparr>) = Inr (st0\<lparr>d_a := replicate n five\<rparr>)"
proof -
  have ok: "hipGetLastError rt = hipSuccess" "hipDeviceSynchronize rt = hipSuccess"
    using assms(2) by (simp_all add: runtime_ok_def)
  have c0: "consistent st0" using assms(1) by (simp add: consistent_def st0_def n_def)
  have c1: "consistent (st0\<lparr>d_a := replicate n three\<rparr>)"
    using assms(1) by (simp add: consistent_def st0_def n_def)
  have init: "init_arrays rt one one one st = Inr st0"
    by (simp add: init_arrays_result [OF assms(1)] ok HIP_CHECK_ok st0_def n_def)
  have first: "nstream rt one st0 = Inr (st0\<lparr>d_a := replicate n three\<rparr>)"
    by (simp add: nstream_result [OF c0] ok HIP_CHECK_ok)
       (simp add: st0_def n_def assms(3) map_upt_replicate)
  have second: "nstream rt one (st0\<lparr>d_a := replicate n three\<rparr>) = Inr (st0\<lparr>d_a := replicate n five\<rparr>)"
    by (simp add: nstream_result [OF c1] ok HIP_CHECK_ok)
       (simp add: st0_def n_def assms(4) map_upt_replicate)
  show ?thesis using init first second by simp
qed

theorem nstream_twice_from_ones_witness:
  "init_arrays (example_runtime [17179869184]) 1 1 1 (example_state 2 0 0 0)
     = Inr (example_state 2 (1::real) 1 1) \<and>
   nstream (example_runtime [17179869184]) 1 (example_state 2 (1::real) 1 1)
     = Inr (example_state 2 (3::real) 1 1) \<and>
   nstream (example_runtime [17179869184]) 1 (example_state 2 (3::real) 1 1)
     = Inr (example_state 2 (5::real) 1 1)"
  using nstream_twice_from_ones [of "example_state 2 (0::real) 0 0" "example_runtime [17179869184]" 1 3 5]
  by (simp add: consistent_example_state runtime_ok_example) (simp add: example_state_def)

lemma run_times_fixed:
  assumes "op s = Inr t" and "op t = Inr t" and "0 < R"
  shows "run_times R op s = Inr t"
proof -
  have stay: "run_times k op t = Inr t" for k
    by (induction k) (simp_all add: assms(2))
  obtain k where "R = Suc k" using assms(3) by (cases R) auto
  then show ?thesis by (simp add: assms(1) stay)
qed

text \<open>
  Claim C5. Triad overwrites \<open>a\<close> from \<open>b\<close> and \<open>c\<close>, which it leaves alone. The element
  type is arbitrary; \<open>r\<close> is the value of \<open>two + scalar * three\<close> in it (9.5 for 2, 2.5
  and 3). After \<^verbatim>\<open>init_arrays(zero, two, three)\<close> one \<^verbatim>\<open>triad\<close> leaves \<open>r\<close> in every
  element of \<open>a\<close>, a second \<^verbatim>\<open>triad\<close> from that state leaves the same state, and so do
  \<open>R\<close> invocations in a row for every \<open>R \<ge> 1\<close>.
\<close>

theorem triad_stable_under_repetition:
  fixes zero two three scalar r :: "'a::{plus,times}"
  assumes "consistent st" and "runtime_ok rt" and "two + scalar * three = r" and "0 < R"
  defines "n \<equiv> nat (array_size st)"
  defines "st0 \<equiv> st\<lparr>d_a := replicate n zero, d_b := replicate n two, d_c := replicate n three\<rparr>"
  shows "init_arrays rt zero two three st = Inr st0 \<and>
         triad rt scalar st0 = Inr (st0\<lparr>d_a := replicate n r\<rparr>) \<and>
         triad rt scalar (st0\<lparr>d_a := replicate n r\<rparr>) = Inr (st0\<lparr>d_a := replicate n r\<rparr>) \<and>
         run_times R (triad rt scalar) st0 = Inr (st0\<lparr>d_a := replicate n r\<rparr>)"
proof -
  have ok: "hipGetLastError rt = hipSuccess" "hipDeviceSynchronize rt = hipSuccess"
    using assms(2) by (simp_all add: runtime_ok_def)
  have c0: "consistent st0" using assms(1) by (simp add: consistent_def st0_def n_def)
  have c1: "consistent (st0\<lparr>d_a := replicate n r\<rparr>)"
    using assms(1) by (simp add: consistent_def st0_def n_def)
  have init: "init_arrays rt zero two three st = Inr st0"
    by (simp add: init_arrays_result [OF assms(1)] ok HIP_CHECK_ok st0_def n_def)
  have first: "triad rt scalar st0 = Inr (st0\<lparr>d_a := replicate n r\<rparr>)"
    by (simp add: triad_result [OF c0] ok HIP_CHECK_ok)
       (simp add: st0_def n_def assms(3) map_upt_replicate)
  have second: "triad rt scalar (st0\<lparr>d_a := replicate n r\<rparr>) = Inr (st0\<lparr>d_a := replicate n r\<rparr>)"
    by (simp add: triad_result [OF c1] ok HIP_CHECK_ok)
       (simp add: st0_def n_def assms(3) map_upt_replicate)
  have "run_times R (triad rt scalar) st0 = Inr (st0\<lparr>d_a := replicate n r\<rparr>)"
    using first second assms(4) by (rule run_times_fixed)
  then show ?thesis using init first second by simp
qed

theorem triad_stable_under_repetition_witness:
  "init_arrays (example_runtime [17179869184]) 0 2 3 (example_state 2 1 1 1)
     = Inr (example_state 2 (0::real) 2 3) \<and>
   triad (example_runtime [17179869184]) (5 / 2) (example_state 2 (0::real) 2 3)
     = Inr (example_state 2 (19 / 2) 2 3) \<and>
   triad (example_runtime [17179869184]) (5 / 2) (example_state 2 (19 / 2 :: real) 2 3)
     = Inr (example_state 2 (19 / 2) 2 3) \<and>
   run_times 7 (triad (example_runtime [17179869184]) (5 / 2)) (example_state 2 (0::real) 2 3)
     = Inr (example_state 2 (19 / 2) 2 3)"
  using triad_stable_under_repetition
          [of "example_state 2 (1::real) 1 1" "example_runtime [17179869184]" 2 "5 / 2" 3 "19 / 2" 7 0]
  by (simp add: consistent_example_state runtime_ok_example) (simp add: example_state_def)

lemma HIP_CHECK_Inr: "HIP_CHECK stat k = Inr x \<Longrightarrow> k = Inr x"
  by (simp add: HIP_CHECK_def split: if_splits)

text \<open>
  Claim C6. Whenever one of the kernels returns, the backend it returns is the one it was
  given but for a single member: \<open>d_c\<close> for Copy and Add, \<open>d_b\<close> for Scale (\<^verbatim>\<open>mul\<close>),
  \<open>d_a\<close> for Triad and Extended-Triad. The other two arrays, the array size, the group
  count and the buffer of partial sums are unchanged. Dot-product changes only the
  buffer of partial sums: \<open>d_a\<close>, \<open>d_b\<close> and \<open>d_c\<close> are unchanged. This holds for every
  backend state, runtime and element type.
\<close>

theorem kernels_write_only_their_target:
  "(copy rt st = Inr st1 \<longrightarrow> st1 = st\<lparr>d_c := d_c st1\<rparr>) \<and>
   (mul rt scalar st = Inr st2 \<longrightarrow> st2 = st\<lparr>d_b := d_b st2\<rparr>) \<and>
   (add rt st = Inr st3 \<longrightarrow> st3 = st\<lparr>d_c := d_c st3\<rparr>) \<and>
   (triad rt scalar st = Inr st4 \<longrightarrow> st4 = st\<lparr>d_a := d_a st4\<rparr>) \<and>
   (nstream rt scalar st = Inr st5 \<longrightarrow> st5 = st\<lparr>d_a := d_a st5\<rparr>) \<and>
   (dot rt st = Inr (result, st6) \<longrightarrow> st6 = st\<lparr>sums_buf := sums_buf st6\<rparr>)"
proof (intro conjI impI)
  assume "copy rt st = Inr st1"
  then show "st1 = st\<lparr>d_c := d_c st1\<rparr>"
    by (auto simp add: copy_def split: sum.splits dest!: HIP_CHECK_Inr)
next
  assume "mul rt scalar st = Inr st2"
  then show "st2 = st\<lparr>d_b := d_b st2\<rparr>"
    by (auto simp add: mul_def split: sum.splits dest!: HIP_CHECK_Inr)
next
  assume "add rt st = Inr st3"
  then show "st3 = st\<lparr>d_c := d_c st3\<rparr>"
    by (auto simp add: add_def split: sum.splits dest!: HIP_CHECK_Inr)
next
  assume "triad rt scalar st = Inr st4"
  then show "st4 = st\<lparr>d_a := d_a st4\<rparr>"
    by (auto simp add: triad_def split: sum.splits dest!: HIP_CHECK_Inr)
next
  assume "nstream rt scalar st = Inr st5"
  then show "st5 = st\<lparr>d_a := d_a st5\<rparr>"
    by (auto simp add: nstream_def split: sum.splits dest!: HIP_CHECK_Inr)
next
  assume "dot rt st = Inr (result, st6)"
  then show "st6 = st\<lparr>sums_buf := sums_buf st6\<rparr>"
    by (auto simp add: dot_def Let_def split: sum.splits if_splits dest!: HIP_CHECK_Inr)
qed

theorem kernels_write_only_their_target_witness:
  "(\<exists>st1. copy (example_runtime [17179869184]) (example_state 2 (1::int) 2 3) = Inr st1 \<and>
          st1 = (example_state 2 1 2 3)\<lparr>d_c := d_c st1\<rparr>) \<and>
   (\<exists>st2. mul (example_runtime [17179869184]) 5 (example_state 2 (1::int) 2 3) = Inr st2 \<and>
          st2 = (example_state 2 1 2 3)\<lparr>d_b := d_b st2\<rparr>) \<and>
   (\<exists>st3. add (example_runtime [17179869184]) (example_state 2 (1::int) 2 3) = Inr st3 \<and>
          st3 = (example_state 2 1 2 3)\<lparr>d_c := d_c st3\<rparr>) \<and>
   (\<exists>st4. triad (example_runtime [17179869184]) 5 (example_state 2 (1::int) 2 3) = Inr st4 \<and>
          st4 = (example_state 2 1 2 3)\<lparr>d_a := d_a st4\<rparr>) \<and>
   (\<exists>st5. nstream (example_runtime [17179869184]) 5 (example_state 2 (1::int) 2 3) = Inr st5 \<and>
          st5 = (example_state 2 1 2 3)\<lparr>d_a := d_a st5\<rparr>) \<and>
   (\<exists>result st6. dot (example_runtime [17179869184]) (example_state 2 (1::int) 2 3) = Inr (result, st6) \<and>
          st6 = (example_state 2 1 2 3)\<lparr>sums_buf := sums_buf st6\<rparr>)"
proof -
  let ?rt = "example_runtime [17179869184] :: int hip_runtime"
  let ?st = "example_state 2 (1::int) 2 3"
  have c: "consistent ?st" by (simp add: consistent_example_state)
  have ok: "runtime_ok ?rt" by (rule runtime_ok_example)
  note k = kernels_ok [OF c ok]
  obtain st1 where 1: "copy ?rt ?st = Inr st1" using k(2) by blast
  obtain st2 where 2: "mul ?rt 5 ?st = Inr st2" using k(3) by blast
  obtain st3 where 3: "add ?rt ?st = Inr st3" using k(4) by blast
  obtain st4 where 4: "triad ?rt 5 ?st = Inr st4" using k(5) by blast
  obtain st5 where 5: "nstream ?rt 5 ?st = Inr st5" using k(6) by blast
  obtain result st6 where 6: "dot ?rt ?st = Inr (result, st6)" using k(7) by blast
  show ?thesis
    using kernels_write_only_their_target
            [where rt = ?rt and st = ?st and scalar = 5 and ?st1.0 = st1 and ?st2.0 = st2
               and ?st3.0 = st3 and ?st4.0 = st4 and ?st5.0 = st5 and result = result
               and ?st6.0 = st6]
          1 2 3 4 5 6
    by simp
qed

section \<open>Accesses of a constructed backend\<close>

text \<open>
  Claim C10. Let the constructor return a backend for an array size \<open>N \<ge> 0\<close> (which it
  does only for a multiple of \<open>TBSIZE\<close>), with 4- or 8-byte elements and with
  \<open>TBSIZE * dot_elements_per_lane + N \<le> 2^31\<close>. Then the element-wise launches have
  \<open>N / TBSIZE\<close> groups of \<open>TBSIZE\<close> lanes, and the indices of their threads, taken in
  launch order, are exactly \<open>0, 1, ..., N - 1\<close>: each once, none outside. Every index
  that the loop of a dot-kernel lane visits is below \<open>N\<close>, whatever its start and
  stride. And none of the seven operations ends in the out-of-bounds branch of the
  model, whatever the runtime answers.
\<close>

theorem constructed_backend_stays_in_bounds:
  fixes rt rt' :: "'a::{zero,plus,times} hip_runtime"
  assumes "snd (HIPStream_new rt sizeof_T e N device_index) = Inr st"
    and "0 \<le> N" and "sizeof_T = 4 \<or> sizeof_T = 8" and "int TBSIZE * int e + N \<le> 2 ^ 31"
  shows "array_size st = N \<and>
         grid_of (array_size st) * TBSIZE = nat N \<and>
         map (\<lambda>(blockIdx, threadIdx). global_index TBSIZE blockIdx threadIdx)
             (threads (grid_of (array_size st)) TBSIZE) = [0..<nat N] \<and>
         list_all (\<lambda>i. i < nat N) (lane_indices (to_size_t (array_size st)) stride start) \<and>
         init_arrays rt' initA initB initC st \<noteq> Inl undefined_behaviour \<and>
         copy rt' st \<noteq> Inl undefined_behaviour \<and>
         mul rt' scalar st \<noteq> Inl undefined_behaviour \<and>
         add rt' st \<noteq> Inl undefined_behaviour \<and>
         triad rt' scalar st \<noteq> Inl undefined_behaviour \<and>
         nstream rt' scalar st \<noteq> Inl undefined_behaviour \<and>
         dot rt' st \<noteq> Inl undefined_behaviour"
proof -
  note c = HIPStream_new_consistent [OF assms]
  note g = grid_of_consistent [OF c(1)]
  have n: "to_size_t (array_size st) = nat N"
    using c(1) c(2) by (simp add: consistent_def to_size_t_nonneg)
  have idx: "map (\<lambda>(blockIdx, threadIdx). global_index TBSIZE blockIdx threadIdx)
             (threads (grid_of (array_size st)) TBSIZE) = [0..<nat N]"
    using global_index_threads [OF g(2)] g(1) c(2) by simp
  have lanes: "list_all (\<lambda>i. i < nat N) (lane_indices (to_size_t (array_size st)) stride start)"
    unfolding n by (rule lane_indices_bounded)
  have 1: "init_arrays rt' initA initB initC st \<noteq> Inl undefined_behaviour"
    unfolding init_arrays_result [OF c(1)] by (intro HIP_CHECK_not_ub) simp
  have 2: "copy rt' st \<noteq> Inl undefined_behaviour"
    unfolding copy_result [OF c(1)] by (intro HIP_CHECK_not_ub) simp
  have 3: "mul rt' scalar st \<noteq> Inl undefined_behaviour"
    unfolding mul_result [OF c(1)] by (intro HIP_CHECK_not_ub) simp
  have 4: "add rt' st \<noteq> Inl undefined_behaviour"
    unfolding add_result [OF c(1)] by (intro HIP_CHECK_not_ub) simp
  have 5: "triad rt' scalar st \<noteq> Inl undefined_behaviour"
    unfolding triad_result [OF c(1)] by (intro HIP_CHECK_not_ub) simp
  have 6: "nstream rt' scalar st \<noteq> Inl undefined_behaviour"
    unfolding nstream_result [OF c(1)] by (intro HIP_CHECK_not_ub) simp
  obtain s' where "dot rt' st =
             HIP_CHECK (hipGetLastError rt') (HIP_CHECK (hipDeviceSynchronize rt')
               (Inr (foldl (+) 0 s', st\<lparr>sums_buf := s'\<rparr>)))"
    using dot_result [OF c(1), of rt'] by blast
  then have 7: "dot rt' st \<noteq> Inl undefined_behaviour"
    by (simp add: HIP_CHECK_def)
  show ?thesis using c(2) g(1) idx lanes 1 2 3 4 5 6 7 by simp
qed

lemma example_construction:
  "HIPStream_new (example_runtime [17179869184] :: 'a::zero hip_runtime) 4 4 2048 0 =
     ([GetDeviceCount, SetDevice 0, GetDeviceProperties 0, SetDevice 0, DriverGetVersion,
       HostMalloc 4, GetDeviceProperties 0, Malloc 8192, Malloc 8192, Malloc 8192],
      Inr example_backend)"
  by (simp add: ctor_defs example_defs example_backend_def)

theorem constructed_backend_stays_in_bounds_witness:
  "array_size (example_backend :: int HIPStream) = 2048 \<and>
   grid_of (array_size (example_backend :: int HIPStream)) * TBSIZE = nat 2048 \<and>
   map (\<lambda>(blockIdx, threadIdx). global_index TBSIZE blockIdx threadIdx)
       (threads (grid_of (array_size (example_backend :: int HIPStream))) TBSIZE) = [0..<nat 2048] \<and>
   list_all (\<lambda>i. i < nat 2048)
       (lane_indices (to_size_t (array_size (example_backend :: int HIPStream))) 1024 5) \<and>
   init_arrays (example_runtime [17179869184]) 1 2 3 (example_backend :: int HIPStream)
     \<noteq> Inl undefined_behaviour \<and>
   copy (example_runtime [17179869184]) (example_backend :: int HIPStream)
     \<noteq> Inl undefined_behaviour \<and>
   mul (example_runtime [17179869184]) 5 (example_backend :: int HIPStream)
     \<noteq> Inl undefined_behaviour \<and>
   add (example_runtime [17179869184]) (example_backend :: int HIPStream)
     \<noteq> Inl undefined_behaviour \<and>
   triad (example_runtime [17179869184]) 5 (example_backend :: int HIPStream)
     \<noteq> Inl undefined_behaviour \<and>
   nstream (example_runtime [17179869184]) 5 (example_backend :: int HIPStream)
     \<noteq> Inl undefined_behaviour \<and>
   dot (example_runtime [17179869184]) (example_backend :: int HIPStream)
     \<noteq> Inl undefined_behaviour"
proof -
  have new: "snd (HIPStream_new (example_runtime [17179869184] :: int hip_runtime) 4 4 2048 0)
               = Inr example_backend"
    by (simp add: example_construction)
  have n: "(0::int) \<le> 2048" and s: "(4::nat) = 4 \<or> (4::nat) = 8"
    and e: "int TBSIZE * int 4 + 2048 \<le> 2 ^ 31"
    by (simp_all add: TBSIZE_def)
  show ?thesis
    by (rule constructed_backend_stays_in_bounds [OF new n s e])
qed

section \<open>The dot kernel: every index once\<close>

lemma congruent_above:
  fixes i j S :: nat
  assumes "i < j" and "j mod S = i mod S"
  shows "i + S \<le> j"
proof -
  have "S dvd j - i" using assms by (simp add: mod_eq_dvd_iff_nat)
  moreover have "0 < j - i" using assms by simp
  ultimately have "S \<le> j - i" by (rule dvd_imp_le)
  then show ?thesis using assms by simp
qed

lemma lane_indices_Nil: "asize \<le> i \<Longrightarrow> lane_indices asize stride i = []"
  by (subst lane_indices.simps) simp

lemma lane_indices_Suc:
  assumes "0 < S"
  shows "lane_indices (Suc N) S i
           = lane_indices N S i @ (if i \<le> N \<and> N mod S = i mod S then [N] else [])"
  using assms
proof (induction N S i rule: lane_indices.induct)
  case (1 N S i)
  consider "i < N" | "i = N" | "N < i" by linarith
  then show ?case
  proof cases
    case 1
    have c: "(i + S \<le> N \<and> N mod S = (i + S) mod S) \<longleftrightarrow> (i \<le> N \<and> N mod S = i mod S)"
      using 1 congruent_above [of i N S] by auto
    have "lane_indices (Suc N) S i = i # lane_indices (Suc N) S (i + S)"
      using 1 "1.prems" by (subst lane_indices.simps) simp
    also have "\<dots> = i # (lane_indices N S (i + S)
                  @ (if i + S \<le> N \<and> N mod S = (i + S) mod S then [N] else []))"
      using "1.IH" 1 "1.prems" by simp
    also have "\<dots> = lane_indices N S i @ (if i \<le> N \<and> N mod S = i mod S then [N] else [])"
      unfolding c using 1 "1.prems" by (subst (2) lane_indices.simps) simp
    finally show ?thesis .
  next
    case 2
    have "lane_indices (Suc N) S N = N # lane_indices (Suc N) S (N + S)"
      using "1.prems" by (subst lane_indices.simps) simp
    also have "\<dots> = [N]" using "1.prems" by (simp add: lane_indices_Nil)
    finally show ?thesis using 2 by (simp add: lane_indices_Nil)
  next
    case 3
    then show ?thesis by (simp add: lane_indices_Nil)
  qed
qed

lemma mset_concat_map_append:
  "mset (concat (map (\<lambda>t. f t @ g t) ts)) = mset (concat (map f ts)) + mset (concat (map g ts))"
  by (induction ts) simp_all

lemma mset_concat_single:
  "distinct ts \<Longrightarrow>
     mset (concat (map (\<lambda>t. if t = a then [x] else []) ts)) = (if a \<in> set ts then {#x#} else {#})"
  by (induction ts) auto

lemma lanes_cover:
  assumes "0 < S"
  shows "mset (concat (map (lane_indices N S) [0..<S])) = mset [0..<N]"
proof (induction N)
  case 0
  then show ?case by (simp add: lane_indices_Nil)
next
  case (Suc N)
  have "map (lane_indices (Suc N) S) [0..<S]
          = map (\<lambda>t. lane_indices N S t @ (if t = N mod S then [N] else [])) [0..<S]"
  proof (rule map_cong [OF refl])
    fix t assume "t \<in> set [0..<S]"
    then have t: "t < S" by simp
    have "(t \<le> N \<and> N mod S = t mod S) \<longleftrightarrow> t = N mod S"
      using t by (auto simp add: mod_less_eq_dividend)
    then show "lane_indices (Suc N) S t = lane_indices N S t @ (if t = N mod S then [N] else [])"
      by (simp add: lane_indices_Suc [OF assms])
  qed
  then have "mset (concat (map (lane_indices (Suc N) S) [0..<S]))
          = mset (concat (map (\<lambda>t. lane_indices N S t @ (if t = N mod S then [N] else [])) [0..<S]))"
    by (rule arg_cong)
  also have "\<dots> = mset (concat (map (lane_indices N S) [0..<S]))
            + mset (concat (map (\<lambda>t. if t = N mod S then [N] else []) [0..<S]))"
    by (rule mset_concat_map_append)
  also have "\<dots> = mset [0..<N] + {#N#}"
    using assms by (simp only: Suc mset_concat_single [OF distinct_upt]) simp
  finally show ?case by simp
qed

lemma sum_list_product:
  fixes f :: "'a \<times> 'b \<Rightarrow> nat"
  shows "sum_list (map f (List.product xs ys))
           = sum_list (map (\<lambda>x. sum_list (map (\<lambda>y. f (x, y)) ys)) xs)"
  by (induction xs) (simp_all add: o_def)

section \<open>The dot kernel on exactly represented integers\<close>

lemma weighted_lane:
  fixes emb :: "nat \<Rightarrow> 'a::{zero,plus,times}" and w :: "nat \<Rightarrow> nat"
  assumes add: "\<And>m n. m + n \<le> B \<Longrightarrow> emb m + emb n = emb (m + n)"
    and prod: "\<And>i. i < n \<Longrightarrow> a ! i * b ! i = emb (w i)"
    and "list_all (\<lambda>i. i < n) xs" and "k + sum_list (map w xs) \<le> B"
  shows "foldl (\<lambda>acc i. acc + a ! i * b ! i) (emb k) xs = emb (k + sum_list (map w xs))"
  using assms(3,4)
proof (induction xs arbitrary: k)
  case Nil
  then show ?case by simp
next
  case (Cons i xs)
  have "emb k + a ! i * b ! i = emb (k + w i)"
    using Cons.prems by (simp add: prod add)
  then show ?case
    using Cons.IH [of "k + w i"] Cons.prems by (simp add: add.assoc)
qed

lemma pair_le_sum_take:
  fixes ks :: "nat list"
  assumes "2 * m \<le> length ks" and "l < m"
  shows "ks ! l + ks ! (l + m) \<le> sum_list (take (2 * m) ks)"
proof -
  have "take (2 * m) ks = take m ks @ take m (drop m ks)"
    using take_add [of m m ks] by (simp add: mult_2)
  moreover have "ks ! l = take m ks ! l" using assms by simp
  moreover have "ks ! (l + m) = take m (drop m ks) ! l" using assms by (simp add: add.commute)
  moreover have "take m ks ! l \<le> sum_list (take m ks)"
    by (rule elem_le_sum_list) (use assms in simp)
  moreover have "take m (drop m ks) ! l \<le> sum_list (take m (drop m ks))"
    by (rule elem_le_sum_list) (use assms in simp)
  ultimately show ?thesis by simp
qed

lemma sum_after_step:
  fixes ks :: "nat list"
  assumes "2 * m \<le> length ks"
  shows "sum_list (take m (map (\<lambda>l. if l < m then ks ! l + ks ! (l + m) else ks ! l) [0..<length ks]))
           = sum_list (take (2 * m) ks)"
proof -
  have "take m (map (\<lambda>l. if l < m then ks ! l + ks ! (l + m) else ks ! l) [0..<length ks])
          = map (\<lambda>l. if l < m then ks ! l + ks ! (l + m) else ks ! l) [0..<m]"
    using assms by (simp add: take_map)
  also have "\<dots> = map (\<lambda>l. ks ! l + drop m ks ! l) [0..<m]"
    using assms by (intro map_cong [OF refl]) (simp add: add.commute)
  finally have "sum_list (take m (map (\<lambda>l. if l < m then ks ! l + ks ! (l + m) else ks ! l) [0..<length ks]))
          = sum_list (map (\<lambda>l. ks ! l) [0..<m]) + sum_list (map (\<lambda>l. drop m ks ! l) [0..<m])"
    by (simp add: sum_list_addf)
  also have "map (\<lambda>l. ks ! l) [0..<m] = take m ks"
    by (rule map_nth_take) (use assms in simp)
  also have "map (\<lambda>l. drop m ks ! l) [0..<m] = take m (drop m ks)"
    by (rule map_nth_take) (use assms in simp)
  also have "sum_list (take m ks) + sum_list (take m (drop m ks)) = sum_list (take (2 * m) ks)"
    using take_add [of m m ks] by (simp add: mult_2)
  finally show ?thesis .
qed

lemma exact_reduce_step:
  fixes emb :: "nat \<Rightarrow> 'a::plus"
  assumes add: "\<And>m n. m + n \<le> B \<Longrightarrow> emb m + emb n = emb (m + n)"
    and "2 * m \<le> length ks" and "sum_list (take (2 * m) ks) \<le> B"
  shows "reduce_step m (map emb ks)
           = Inr (map emb (map (\<lambda>l. if l < m then ks ! l + ks ! (l + m) else ks ! l) [0..<length ks]))"
proof -
  have "(if l < m then map emb ks ! l + map emb ks ! (l + m) else map emb ks ! l)
          = emb (if l < m then ks ! l + ks ! (l + m) else ks ! l)"
    if "l < length ks" for l
  proof (cases "l < m")
    case True
    have "ks ! l + ks ! (l + m) \<le> B"
      using pair_le_sum_take [OF assms(2) True] assms(3) by simp
    then show ?thesis using True that assms(2) by (simp add: add)
  next
    case False
    then show ?thesis using that by simp
  qed
  then show ?thesis using assms(2) by (simp add: reduce_step_def)
qed

lemma tree_reduce_0: "tree_reduce 0 tb = Inr tb"
  by (subst tree_reduce.simps) simp

lemma tree_reduce_pos:
  "0 < m \<Longrightarrow> tree_reduce m tb =
     (case reduce_step m tb of Inl e \<Rightarrow> Inl e | Inr tb' \<Rightarrow> tree_reduce (m div 2) tb')"
  by (subst tree_reduce.simps) simp

lemma exact_tree:
  fixes emb :: "nat \<Rightarrow> 'a::plus"
  assumes add: "\<And>m n. m + n \<le> B \<Longrightarrow> emb m + emb n = emb (m + n)"
  shows "2 * 2 ^ k \<le> length ks \<Longrightarrow> sum_list (take (2 * 2 ^ k) ks) \<le> B \<Longrightarrow>
         \<exists>ks'. tree_reduce (2 ^ k) (map emb ks) = Inr (map emb ks') \<and> length ks' = length ks \<and>
               ks' ! 0 = sum_list (take (2 * 2 ^ k) ks)"
proof (induction k arbitrary: ks)
  case 0
  let ?ks1 = "map (\<lambda>l. if l < 1 then ks ! l + ks ! (l + 1) else ks ! l) [0..<length ks]"
  have step: "reduce_step 1 (map emb ks) = Inr (map emb ?ks1)"
    using exact_reduce_step [OF add, where m = 1 and ks = ks] 0 by simp
  have "tree_reduce (2 ^ 0) (map emb ks) = Inr (map emb ?ks1)"
    using step by (simp add: tree_reduce_pos tree_reduce_0)
  moreover have "sum_list (take 1 ?ks1) = sum_list (take (2 * 1) ks)"
    by (rule sum_after_step) (use 0 in simp)
  moreover have "take 1 ?ks1 = [?ks1 ! 0]"
    using 0 by (cases ?ks1) auto
  ultimately show ?case by (intro exI [of _ ?ks1]) simp
next
  case (Suc k)
  let ?m = "2 * 2 ^ k :: nat"
  let ?ks1 = "map (\<lambda>l. if l < ?m then ks ! l + ks ! (l + ?m) else ks ! l) [0..<length ks]"
  have m: "2 * ?m \<le> length ks" "sum_list (take (2 * ?m) ks) \<le> B" using Suc.prems by simp_all
  have step: "reduce_step ?m (map emb ks) = Inr (map emb ?ks1)"
    by (rule exact_reduce_step [OF add m])
  have sum1: "sum_list (take ?m ?ks1) = sum_list (take (2 * ?m) ks)"
    by (rule sum_after_step [OF m(1)])
  have "\<exists>ks'. tree_reduce (2 ^ k) (map emb ?ks1) = Inr (map emb ks') \<and> length ks' = length ?ks1 \<and>
               ks' ! 0 = sum_list (take (2 * 2 ^ k) ?ks1)"
    by (rule Suc.IH) (use m sum1 in simp_all)
  then obtain ks' where ks': "tree_reduce (2 ^ k) (map emb ?ks1) = Inr (map emb ks')"
    "length ks' = length ?ks1" "ks' ! 0 = sum_list (take ?m ?ks1)" by blast
  have "tree_reduce (2 ^ Suc k) (map emb ks) = Inr (map emb ks')"
    using step ks'(1) by (simp add: tree_reduce_pos)
  then show ?case using ks' sum1 by (intro exI [of _ ks']) simp
qed

lemma exact_host_sum:
  fixes emb :: "nat \<Rightarrow> 'a::plus"
  assumes add: "\<And>m n. m + n \<le> B \<Longrightarrow> emb m + emb n = emb (m + n)"
  shows "k + sum_list cs \<le> B \<Longrightarrow> foldl (+) (emb k) (map emb cs) = emb (k + sum_list cs)"
proof (induction cs arbitrary: k)
  case Nil
  then show ?case by simp
next
  case (Cons c cs)
  then show ?case using Cons.IH [of "k + c"] by (simp add: add add.assoc)
qed

lemma run_seq_update_each:
  assumes "\<And>i s. i < n \<Longrightarrow> length s = m \<Longrightarrow> body i s = Inr (s[i := v i])"
    and "n \<le> m" and "length s = m"
  shows "run_seq body [0..<n] s = Inr (map v [0..<n] @ drop n s)"
proof -
  have "k \<le> n \<Longrightarrow> run_seq body [0..<k] s = Inr (map v [0..<k] @ drop k s)" for k
  proof (induction k)
    case 0
    then show ?case by simp
  next
    case (Suc k)
    have "body k (map v [0..<k] @ drop k s) = Inr ((map v [0..<k] @ drop k s)[k := v k])"
      by (rule assms(1)) (use Suc.prems assms(2,3) in simp_all)
    then show ?case
      using Suc assms(2,3) by (simp add: run_seq_append update_next)
  qed
  then show ?thesis by simp
qed

lemma sum_list_map_mset_cong:
  fixes w :: "nat \<Rightarrow> nat"
  assumes "mset xs = mset ys"
  shows "sum_list (map w xs) = sum_list (map w ys)"
proof -
  have "sum_mset (mset (map w xs)) = sum_mset (mset (map w ys))"
    using assms by simp
  then show ?thesis by (simp only: sum_mset_sum_list)
qed

lemma sum_list_map_concat:
  fixes w :: "nat \<Rightarrow> nat"
  shows "sum_list (map w (concat xss)) = sum_list (map (\<lambda>xs. sum_list (map w xs)) xss)"
  by (induction xss) simp_all

lemma lanes_total:
  fixes w :: "nat \<Rightarrow> nat"
  assumes "0 < T * G"
  shows "(\<Sum>b\<leftarrow>[0..<G]. \<Sum>l\<leftarrow>[0..<T]. \<Sum>i\<leftarrow>lane_indices N (T * G) (T * b + l). w i)
           = (\<Sum>i\<leftarrow>[0..<N]. w i)"
proof -
  have "sum_list (map w (concat (map (lane_indices N (T * G)) [0..<T * G])))
          = sum_list (map w [0..<N])"
    by (rule sum_list_map_mset_cong [OF lanes_cover [OF assms]])
  then have "(\<Sum>t\<leftarrow>[0..<G * T]. \<Sum>i\<leftarrow>lane_indices N (T * G) t. w i) = (\<Sum>i\<leftarrow>[0..<N]. w i)"
    by (simp add: sum_list_map_concat o_def mult.commute)
  then have "(\<Sum>t\<leftarrow>map (\<lambda>(b, l). T * b + l) (threads G T). \<Sum>i\<leftarrow>lane_indices N (T * G) t. w i)
               = (\<Sum>i\<leftarrow>[0..<N]. w i)"
    by (simp only: map_index_threads)
  then have "(\<Sum>p\<leftarrow>List.product [0..<G] [0..<T].
                \<Sum>i\<leftarrow>lane_indices N (T * G) (T * fst p + snd p). w i) = (\<Sum>i\<leftarrow>[0..<N]. w i)"
    by (simp add: threads_def o_def case_prod_unfold)
  then show ?thesis
    by (simp add: sum_list_product)
qed


lemma dot_threads_lanes:
  assumes "consistent st" and "0 < dot_num_blocks st"
  shows "map (\<lambda>(blockIdx, local_i).
                lane_indices (to_size_t (array_size st))
                  (wrap_unsigned (TBSIZE * to_unsigned (dot_num_blocks st)))
                  (global_index TBSIZE blockIdx local_i))
             (threads (to_unsigned (dot_num_blocks st)) TBSIZE)
       = map (lane_indices (nat (array_size st)) (TBSIZE * nat (dot_num_blocks st)))
             [0..<TBSIZE * nat (dot_num_blocks st)]"
proof -
  let ?g = "nat (dot_num_blocks st)" and ?n = "nat (array_size st)"
  let ?s = "TBSIZE * ?g"
  have g0: "0 < ?g" using assms(2) by simp
  have t0: "0 < TBSIZE" by (simp add: TBSIZE_def)
  note p = dot_launch_parameters [OF assms(1) g0 t0]
  have "map (\<lambda>(blockIdx, local_i).
                lane_indices (to_size_t (array_size st))
                  (wrap_unsigned (TBSIZE * to_unsigned (dot_num_blocks st)))
                  (global_index TBSIZE blockIdx local_i))
             (threads (to_unsigned (dot_num_blocks st)) TBSIZE)
      = map (\<lambda>x. lane_indices ?n ?s (case x of (blockIdx, local_i) \<Rightarrow> TBSIZE * blockIdx + local_i))
            (threads ?g TBSIZE)"
    unfolding p(1,2,3)
  proof (rule map_cong [OF refl])
    fix x assume "x \<in> set (threads ?g TBSIZE)"
    then obtain b l where x: "x = (b, l)" "b < ?g" "l < TBSIZE"
      by (auto simp add: threads_def)
    show "(case x of (blockIdx, local_i) \<Rightarrow> lane_indices ?n ?s (global_index TBSIZE blockIdx local_i))
            = lane_indices ?n ?s (case x of (blockIdx, local_i) \<Rightarrow> TBSIZE * blockIdx + local_i)"
      using dot_launch_parameters(4) [OF assms(1) x(2,3)] x(1) by simp
  qed
  also have "\<dots> = map (lane_indices ?n ?s)
                      (map (\<lambda>(blockIdx, local_i). TBSIZE * blockIdx + local_i) (threads ?g TBSIZE))"
    by simp
  also have "\<dots> = map (lane_indices ?n ?s) [0..<?g * TBSIZE]"
    by (simp only: map_index_threads)
  finally show ?thesis by (simp add: mult.commute)
qed

lemma dot_by_lanes:
  fixes st :: "'a::{zero,plus,times} HIPStream"
  assumes c: "consistent st"
  defines "totals \<equiv>
     map (\<lambda>blockIdx. projr (tree_reduce (TBSIZE div 2)
            (map (\<lambda>local_i. foldl (\<lambda>acc i. acc + d_a st ! i * d_b st ! i) 0
                    (lane_indices (nat (array_size st)) (TBSIZE * nat (dot_num_blocks st))
                       (TBSIZE * blockIdx + local_i)))
               [0..<TBSIZE])) ! 0)
         [0..<nat (dot_num_blocks st)]"
  shows "dot rt st =
           HIP_CHECK (hipGetLastError rt) (HIP_CHECK (hipDeviceSynchronize rt)
             (Inr (foldl (+) 0 totals, st\<lparr>sums_buf := totals\<rparr>)))"
proof -
  define G where "G = nat (dot_num_blocks st)"
  define v where "v blockIdx = projr (tree_reduce (TBSIZE div 2)
            (map (\<lambda>local_i. foldl (\<lambda>acc i. acc + d_a st ! i * d_b st ! i) 0
                    (lane_indices (nat (array_size st)) (TBSIZE * nat (dot_num_blocks st))
                       (TBSIZE * blockIdx + local_i)))
               [0..<TBSIZE])) ! 0" for blockIdx
  have totals: "totals = map v [0..<G]"
    by (simp add: totals_def v_def G_def)
  have kernel: "dot_kernel (d_a st) (d_b st) (array_size st) TBSIZE G blk s = Inr (s[blk := v blk])"
    if "blk < G" "length s = G" for blk s
  proof -
    have blk: "blk < nat (dot_num_blocks st)" using that(1) by (simp add: G_def)
    obtain tb where tb: "dot_group (d_a st) (d_b st) (array_size st) TBSIZE G blk = Inr tb"
      using dot_group_Inr [OF c blk] by (auto simp add: G_def)
    then have "v blk = tb ! 0"
      using dot_group_lanes [OF c blk] by (simp add: v_def G_def)
    then show ?thesis
      using tb that by (simp add: dot_kernel_def TBSIZE_def)
  qed
  have len: "length (sums_buf st) = G" using c by (simp add: consistent_def G_def)
  have run: "run_seq (dot_kernel (d_a st) (d_b st) (array_size st) TBSIZE G) [0..<G] (sums_buf st)
               = Inr (map v [0..<G] @ drop G (sums_buf st))"
    by (rule run_seq_update_each [where m = G]) (use kernel len in simp_all)
  have p: "to_unsigned (dot_num_blocks st) = G"
    using c by (simp add: consistent_def to_unsigned_def G_def)
  show ?thesis
    using run len by (simp add: dot_def p Let_def totals G_def [symmetric])
qed

lemma weighted_dot:
  fixes st :: "'a::{zero,plus,times} HIPStream" and emb :: "nat \<Rightarrow> 'a" and w :: "nat \<Rightarrow> nat"
  assumes c: "consistent st" and g: "0 < dot_num_blocks st" and ok: "runtime_ok rt"
    and zero: "emb 0 = 0"
    and prod: "\<And>i. i < nat (array_size st) \<Longrightarrow> d_a st ! i * d_b st ! i = emb (w i)"
    and add: "\<And>m n. m + n \<le> (\<Sum>i\<leftarrow>[0..<nat (array_size st)]. w i) \<Longrightarrow> emb m + emb n = emb (m + n)"
  shows "\<exists>st'. dot rt st = Inr (emb (\<Sum>i\<leftarrow>[0..<nat (array_size st)]. w i), st')"
proof -
  define G where "G = nat (dot_num_blocks st)"
  define N where "N = nat (array_size st)"
  define S where "S = TBSIZE * G"
  define W where "W = (\<Sum>i\<leftarrow>[0..<N]. w i)"
  define lane where "lane b l = (\<Sum>i\<leftarrow>lane_indices N S (TBSIZE * b + l). w i)" for b l
  define cnt where "cnt b = (\<Sum>l\<leftarrow>[0..<TBSIZE]. lane b l)" for b
  have G0: "0 < G" using g by (simp add: G_def)
  have S0: "0 < TBSIZE * G" using G0 by (simp add: TBSIZE_def)
  have total: "(\<Sum>b\<leftarrow>[0..<G]. cnt b) = W"
    unfolding cnt_def lane_def S_def W_def by (rule lanes_total [OF S0])
  have cnt_le: "cnt b \<le> W" if "b < G" for b
  proof -
    have "cnt b \<in> set (map cnt [0..<G])" using that by simp
    then have "cnt b \<le> sum_list (map cnt [0..<G])" by (rule member_le_sum_list) simp
    then show ?thesis using total by simp
  qed
  have lane_le: "lane b l \<le> W" if "b < G" "l < TBSIZE" for b l
  proof -
    have "lane b l \<in> set (map (lane b) [0..<TBSIZE])"
      using that by simp
    then have "lane b l \<le> cnt b"
      unfolding cnt_def by (rule member_le_sum_list) simp
    then show ?thesis using cnt_le [OF that(1)] by simp
  qed
  have add': "\<And>m n. m + n \<le> W \<Longrightarrow> emb m + emb n = emb (m + n)"
    using add by (simp add: N_def W_def)
  have prod': "\<And>i. i < N \<Longrightarrow> d_a st ! i * d_b st ! i = emb (w i)"
    using prod by (simp add: N_def)
  have group: "projr (tree_reduce (TBSIZE div 2)
                 (map (\<lambda>local_i. foldl (\<lambda>acc i. acc + d_a st ! i * d_b st ! i) 0
                         (lane_indices N S (TBSIZE * blk + local_i))) [0..<TBSIZE])) ! 0
               = emb (cnt blk)" if blk: "blk < G" for blk
  proof -
    define ks where "ks = map (lane blk) [0..<TBSIZE]"
    have lanes: "map (\<lambda>local_i. foldl (\<lambda>acc i. acc + d_a st ! i * d_b st ! i) 0
                       (lane_indices N S (TBSIZE * blk + local_i))) [0..<TBSIZE]
                   = map emb ks"
      unfolding ks_def map_map
    proof (rule map_cong [OF refl])
      fix l assume "l \<in> set [0..<TBSIZE]"
      then have l: "l < TBSIZE" by simp
      have bound: "0 + sum_list (map w (lane_indices N S (TBSIZE * blk + l))) \<le> W"
        using lane_le [OF blk l] by (simp add: lane_def)
      have "foldl (\<lambda>acc i. acc + d_a st ! i * d_b st ! i) (emb 0)
              (lane_indices N S (TBSIZE * blk + l))
             = emb (0 + sum_list (map w (lane_indices N S (TBSIZE * blk + l))))"
        using add' prod' lane_indices_bounded bound by (rule weighted_lane [where B = W])
      then show "foldl (\<lambda>acc i. acc + d_a st ! i * d_b st ! i) 0 (lane_indices N S (TBSIZE * blk + l))
             = (emb \<circ> lane blk) l"
        by (simp add: zero lane_def)
    qed
    have len: "length ks = 2 * 2 ^ 9" by (simp add: ks_def TBSIZE_def)
    have sum: "sum_list ks = cnt blk"
      by (simp add: ks_def cnt_def)
    have "\<exists>ks'. tree_reduce (2 ^ 9) (map emb ks) = Inr (map emb ks') \<and> length ks' = length ks \<and>
               ks' ! 0 = sum_list (take (2 * 2 ^ 9) ks)"
      by (rule exact_tree [where B = W, OF add']) (use len sum cnt_le [OF blk] in simp_all)
    then obtain ks' where ks': "tree_reduce (2 ^ 9) (map emb ks) = Inr (map emb ks')"
      "length ks' = length ks" "ks' ! 0 = sum_list (take (2 * 2 ^ 9) ks)" by blast
    have "TBSIZE div 2 = 2 ^ 9" by (simp add: TBSIZE_def)
    moreover have "map emb ks' ! 0 = emb (cnt blk)"
      using ks'(2,3) len sum by simp
    ultimately show ?thesis using ks'(1) lanes by simp
  qed
  have totals: "map (\<lambda>blockIdx. projr (tree_reduce (TBSIZE div 2)
            (map (\<lambda>local_i. foldl (\<lambda>acc i. acc + d_a st ! i * d_b st ! i) 0
                    (lane_indices (nat (array_size st)) (TBSIZE * nat (dot_num_blocks st))
                       (TBSIZE * blockIdx + local_i)))
               [0..<TBSIZE])) ! 0)
         [0..<nat (dot_num_blocks st)] = map emb (map cnt [0..<G])"
    unfolding map_map G_def [symmetric] N_def [symmetric] S_def [symmetric]
    by (rule map_cong [OF refl]) (simp add: group)
  have "foldl (+) (emb 0) (map emb (map cnt [0..<G])) = emb (0 + sum_list (map cnt [0..<G]))"
    by (rule exact_host_sum [where B = W, OF add']) (use total in simp_all)
  then have host: "foldl (+) 0 (map emb (map cnt [0..<G])) = emb W"
    by (simp add: zero total)
  have rt: "hipGetLastError rt = hipSuccess" "hipDeviceSynchronize rt = hipSuccess"
    using ok by (simp_all add: runtime_ok_def)
  have "dot rt st = Inr (emb W, st\<lparr>sums_buf := map emb (map cnt [0..<G])\<rparr>)"
    unfolding dot_by_lanes [OF c, of rt] totals by (simp only: rt HIP_CHECK_ok host)
  then show ?thesis by (simp add: N_def W_def)
qed


lemma dot_lanes_parameters:
  assumes "consistent st" and "blockIdx < nat (dot_num_blocks st)"
  shows "map (\<lambda>local_i. F (lane_indices (to_size_t (array_size st))
                 (wrap_unsigned (TBSIZE * to_unsigned (dot_num_blocks st)))
                 (global_index TBSIZE blockIdx local_i))) [0..<TBSIZE]
       = map (\<lambda>local_i. F (lane_indices (nat (array_size st)) (TBSIZE * nat (dot_num_blocks st))
                 (TBSIZE * blockIdx + local_i))) [0..<TBSIZE]"
proof (rule map_cong [OF refl])
  fix local_i assume "local_i \<in> set [0..<TBSIZE]"
  then have l: "local_i < TBSIZE" by simp
  note p = dot_launch_parameters [OF assms l]
  show "F (lane_indices (to_size_t (array_size st))
                 (wrap_unsigned (TBSIZE * to_unsigned (dot_num_blocks st)))
                 (global_index TBSIZE blockIdx local_i))
      = F (lane_indices (nat (array_size st)) (TBSIZE * nat (dot_num_blocks st))
                 (TBSIZE * blockIdx + local_i))"
    by (simp only: p(1,2,3,4))
qed

lemma sum_list_one_other:
  fixes c d :: nat
  assumes "d \<le> c"
  shows "(\<Sum>i\<leftarrow>[0..<n]. if i = j then c else d) = (if j < n then c - d else 0) + n * d"
  using assms by (induction n) (auto simp add: less_Suc_eq)


text \<open>
  Claim C3. On a consistent backend with at least one work group for the dot kernel
  (any number of them below \<open>2^22\<close>, any array size \<open>N\<close>), write \<open>lane blockIdx local_i\<close>
  for the indices that lane \<open>local_i\<close> of group \<open>blockIdx\<close> reads: it starts at
  \<open>blockDim * blockIdx + local_i\<close> and strides on by \<open>blockDim * gridDim\<close> while it stays
  below \<open>N\<close>. Then, for any contents of the arrays unless said otherwise:
  \<^item> the lanes of all groups, put together, hold each index of \<open>[0, N)\<close> exactly once
    (equality of multisets);
  \<^item> the loop of every lane returns the sum, started from zero, of \<open>a[i] * b[i]\<close> over
    exactly the indices of that lane, in order;
  \<^item> every group of \<^verbatim>\<open>dot_kernel\<close> returns, and its \<^verbatim>\<open>tb_sum\<close> is the tree reduction of
    the sums of its lanes;
  \<^item> \<^verbatim>\<open>dot\<close> returns the sum, added on the host in order from zero, of the groups' totals
    (entry 0 of each reduced \<^verbatim>\<open>tb_sum\<close>), and leaves these totals in \<^verbatim>\<open>sums\<close>: its value
    is built from the products \<open>a[i] * b[i]\<close> at the indices of the lanes and from
    nothing else;
  \<^item> if every product \<open>a[i] * b[i]\<close> is the integer \<open>w i\<close>, for any weights \<open>w\<close>, and the
    element type represents the integers up to the total \<open>W\<close> of the weights over
    \<open>[0, N)\<close> exactly (\<open>emb\<close> maps a natural number to its element; sums of two such
    elements that stay within \<open>W\<close> are exact and \<open>emb 0\<close> is the additive identity), then
    \<^verbatim>\<open>dot\<close> returns \<open>emb W\<close>: every index contributes its own weight exactly once, for
    every number of work groups. An index skipped or read twice would change the result
    for the weights that are 1 at that index and 0 elsewhere;
  \<^item> in particular, if \<open>a\<close> holds \<open>one\<close> and \<open>b\<close> holds \<open>two\<close> everywhere with
    \<open>one * two = emb 2\<close>, then \<^verbatim>\<open>dot\<close> returns \<open>emb (2 \<times> N)\<close>.

  No law of associativity or commutativity of the element type is used. The witness
  runs three work groups on \<open>N = 8192\<close>: with \<open>a = 1\<close> and \<open>b = 2\<close> everywhere the result
  is 16384, and with \<open>a[5000]\<close> raised to 3 it is 16388.
\<close>

theorem dot_consumes_every_index_once:
  fixes st :: "'a::{zero,plus,times} HIPStream" and emb :: "nat \<Rightarrow> 'a" and w :: "nat \<Rightarrow> nat"
  assumes "consistent st" and "0 < dot_num_blocks st"
  defines "gridDim \<equiv> to_unsigned (dot_num_blocks st)"
    and "stride \<equiv> wrap_unsigned (TBSIZE * to_unsigned (dot_num_blocks st))"
  defines "lane \<equiv> \<lambda>blockIdx local_i.
             lane_indices (to_size_t (array_size st)) stride (global_index TBSIZE blockIdx local_i)"
  defines "lane_sums \<equiv> \<lambda>blockIdx.
             map (\<lambda>local_i. foldl (\<lambda>acc i. acc + d_a st ! i * d_b st ! i) 0 (lane blockIdx local_i))
               [0..<TBSIZE]"
  defines "totals \<equiv>
             map (\<lambda>blockIdx. projr (tree_reduce (TBSIZE div 2) (lane_sums blockIdx)) ! 0) [0..<gridDim]"
  shows
    "mset (concat (map (\<lambda>(blockIdx, local_i). lane blockIdx local_i) (threads gridDim TBSIZE)))
       = mset [0..<nat (array_size st)] \<and>
     list_all (\<lambda>(blockIdx, local_i).
                 dot_loop (d_a st) (d_b st) (to_size_t (array_size st)) stride
                   (global_index TBSIZE blockIdx local_i) 0
                 = Inr (foldl (\<lambda>acc i. acc + d_a st ! i * d_b st ! i) 0 (lane blockIdx local_i)))
              (threads gridDim TBSIZE) \<and>
     list_all (\<lambda>blockIdx.
                 dot_group (d_a st) (d_b st) (array_size st) TBSIZE gridDim blockIdx
                   = tree_reduce (TBSIZE div 2) (lane_sums blockIdx) \<and>
                 (\<exists>tb_sum. tree_reduce (TBSIZE div 2) (lane_sums blockIdx) = Inr tb_sum \<and>
                            length tb_sum = TBSIZE))
              [0..<gridDim] \<and>
     (runtime_ok rt \<longrightarrow> dot rt st = Inr (foldl (+) 0 totals, st\<lparr>sums_buf := totals\<rparr>)) \<and>
     (runtime_ok rt \<and> emb 0 = 0 \<and>
      (\<forall>i<nat (array_size st). d_a st ! i * d_b st ! i = emb (w i)) \<and>
      (\<forall>m n. m + n \<le> (\<Sum>i\<leftarrow>[0..<nat (array_size st)]. w i) \<longrightarrow> emb m + emb n = emb (m + n))
      \<longrightarrow> (\<exists>st'. dot rt st = Inr (emb (\<Sum>i\<leftarrow>[0..<nat (array_size st)]. w i), st'))) \<and>
     (runtime_ok rt \<and>
      d_a st = replicate (nat (array_size st)) one \<and>
      d_b st = replicate (nat (array_size st)) two \<and>
      emb 0 = 0 \<and> one * two = emb 2 \<and>
      (\<forall>m n. m + n \<le> 2 * nat (array_size st) \<longrightarrow> emb m + emb n = emb (m + n))
      \<longrightarrow> (\<exists>st'. dot rt st = Inr (emb (2 * nat (array_size st)), st')))"
proof (intro conjI impI)
  let ?g = "nat (dot_num_blocks st)" and ?n = "nat (array_size st)"
  have g0: "0 < ?g" using assms(2) by simp
  have t0: "0 < TBSIZE" by (simp add: TBSIZE_def)
  note p = dot_launch_parameters [OF assms(1) g0 t0]
  have s: "stride = TBSIZE * ?g" by (simp add: stride_def p(1,3))
  have gd: "gridDim = ?g" by (simp add: gridDim_def p(1))
  have sums: "lane_sums blockIdx
                = map (\<lambda>local_i. foldl (\<lambda>acc i. acc + d_a st ! i * d_b st ! i) 0
                         (lane_indices ?n (TBSIZE * ?g) (TBSIZE * blockIdx + local_i))) [0..<TBSIZE]"
    if "blockIdx < ?g" for blockIdx
    unfolding lane_sums_def lane_def stride_def
    by (rule dot_lanes_parameters [OF assms(1) that])
  show "mset (concat (map (\<lambda>(blockIdx, local_i). lane blockIdx local_i) (threads gridDim TBSIZE)))
       = mset [0..<nat (array_size st)]"
    unfolding lane_def gridDim_def stride_def dot_threads_lanes [OF assms(1,2)]
    by (rule lanes_cover [OF p(5)])
  show "list_all (\<lambda>(blockIdx, local_i).
                 dot_loop (d_a st) (d_b st) (to_size_t (array_size st)) stride
                   (global_index TBSIZE blockIdx local_i) 0
                 = Inr (foldl (\<lambda>acc i. acc + d_a st ! i * d_b st ! i) 0 (lane blockIdx local_i)))
              (threads gridDim TBSIZE)"
    unfolding list_all_iff
  proof (intro ballI)
    fix x assume "x \<in> set (threads gridDim TBSIZE)"
    have len: "?n \<le> length (d_a st)" "?n \<le> length (d_b st)"
      using assms(1) by (simp_all add: consistent_def)
    have "dot_loop (d_a st) (d_b st) ?n (TBSIZE * ?g) i 0
            = Inr (foldl (\<lambda>acc i. acc + d_a st ! i * d_b st ! i) 0
                     (lane_indices ?n (TBSIZE * ?g) i))" for i
      using len p(6) p(5) by (rule dot_loop_lane_indices)
    then show "case x of (blockIdx, local_i) \<Rightarrow>
                 dot_loop (d_a st) (d_b st) (to_size_t (array_size st)) stride
                   (global_index TBSIZE blockIdx local_i) 0
                 = Inr (foldl (\<lambda>acc i. acc + d_a st ! i * d_b st ! i) 0 (lane blockIdx local_i))"
      by (simp add: lane_def s p(2) case_prod_unfold)
  qed
  show "list_all (\<lambda>blockIdx.
                 dot_group (d_a st) (d_b st) (array_size st) TBSIZE gridDim blockIdx
                   = tree_reduce (TBSIZE div 2) (lane_sums blockIdx) \<and>
                 (\<exists>tb_sum. tree_reduce (TBSIZE div 2) (lane_sums blockIdx) = Inr tb_sum \<and>
                            length tb_sum = TBSIZE))
              [0..<gridDim]"
    unfolding list_all_iff
  proof (intro ballI)
    fix blockIdx assume "blockIdx \<in> set [0..<gridDim]"
    then have b: "blockIdx < ?g" by (simp add: gd)
    have eq: "dot_group (d_a st) (d_b st) (array_size st) TBSIZE gridDim blockIdx
            = tree_reduce (TBSIZE div 2) (lane_sums blockIdx)"
      unfolding gd sums [OF b] by (rule dot_group_lanes [OF assms(1) b])
    moreover have "\<exists>tb_sum. tree_reduce (TBSIZE div 2) (lane_sums blockIdx) = Inr tb_sum \<and>
                            length tb_sum = TBSIZE"
      using dot_group_Inr [OF assms(1) b] eq by (simp add: gd)
    ultimately show "dot_group (d_a st) (d_b st) (array_size st) TBSIZE gridDim blockIdx
                   = tree_reduce (TBSIZE div 2) (lane_sums blockIdx) \<and>
                 (\<exists>tb_sum. tree_reduce (TBSIZE div 2) (lane_sums blockIdx) = Inr tb_sum \<and>
                            length tb_sum = TBSIZE)"
      by (rule conjI)
  qed
next
  assume ok: "runtime_ok rt"
  let ?g = "nat (dot_num_blocks st)" and ?n = "nat (array_size st)"
  have g0: "0 < ?g" using assms(2) by simp
  have t0: "0 < TBSIZE" by (simp add: TBSIZE_def)
  note p = dot_launch_parameters [OF assms(1) g0 t0]
  have gd: "gridDim = ?g" by (simp add: gridDim_def p(1))
  have "totals = map (\<lambda>blockIdx. projr (tree_reduce (TBSIZE div 2)
            (map (\<lambda>local_i. foldl (\<lambda>acc i. acc + d_a st ! i * d_b st ! i) 0
                    (lane_indices ?n (TBSIZE * ?g) (TBSIZE * blockIdx + local_i)))
               [0..<TBSIZE])) ! 0) [0..<?g]"
    unfolding totals_def gd
  proof (rule map_cong [OF refl])
    fix blockIdx assume "blockIdx \<in> set [0..<?g]"
    then have b: "blockIdx < ?g" by simp
    show "projr (tree_reduce (TBSIZE div 2) (lane_sums blockIdx)) ! 0
        = projr (tree_reduce (TBSIZE div 2)
            (map (\<lambda>local_i. foldl (\<lambda>acc i. acc + d_a st ! i * d_b st ! i) 0
                    (lane_indices ?n (TBSIZE * ?g) (TBSIZE * blockIdx + local_i)))
               [0..<TBSIZE])) ! 0"
      unfolding lane_sums_def lane_def stride_def
      by (simp only: dot_lanes_parameters [OF assms(1) b])
  qed
  then show "dot rt st = Inr (foldl (+) 0 totals, st\<lparr>sums_buf := totals\<rparr>)"
    using ok by (simp only: dot_by_lanes [OF assms(1), of rt] runtime_ok_def HIP_CHECK_ok)
next
  assume h: "runtime_ok rt \<and> emb 0 = 0 \<and>
      (\<forall>i<nat (array_size st). d_a st ! i * d_b st ! i = emb (w i)) \<and>
      (\<forall>m n. m + n \<le> (\<Sum>i\<leftarrow>[0..<nat (array_size st)]. w i) \<longrightarrow> emb m + emb n = emb (m + n))"
  show "\<exists>st'. dot rt st = Inr (emb (\<Sum>i\<leftarrow>[0..<nat (array_size st)]. w i), st')"
    by (rule weighted_dot [OF assms(1,2)]) (use h in simp_all)
next
  assume h: "runtime_ok rt \<and>
      d_a st = replicate (nat (array_size st)) one \<and>
      d_b st = replicate (nat (array_size st)) two \<and>
      emb 0 = 0 \<and> one * two = emb 2 \<and>
      (\<forall>m n. m + n \<le> 2 * nat (array_size st) \<longrightarrow> emb m + emb n = emb (m + n))"
  have "\<exists>st'. dot rt st = Inr (emb (\<Sum>i\<leftarrow>[0..<nat (array_size st)]. 2), st')"
    by (rule weighted_dot [OF assms(1,2)]) (use h in \<open>simp_all add: sum_list_triv\<close>)
  then show "\<exists>st'. dot rt st = Inr (emb (2 * nat (array_size st)), st')"
    by (simp add: sum_list_triv mult.commute)
qed


theorem dot_consumes_every_index_once_witness:
  "mset (concat (map (\<lambda>(blockIdx, local_i).
                        lane_indices (to_size_t (array_size (example_state 3 (1::int) 2 0)))
                          (wrap_unsigned (TBSIZE * to_unsigned (dot_num_blocks (example_state 3 (1::int) 2 0))))
                          (global_index TBSIZE blockIdx local_i))
                     (threads (to_unsigned (dot_num_blocks (example_state 3 (1::int) 2 0))) TBSIZE)))
     = mset [0..<nat (array_size (example_state 3 (1::int) 2 0))] \<and>
   nat (array_size (example_state 3 (1::int) 2 0)) = 8192 \<and>
   to_unsigned (dot_num_blocks (example_state 3 (1::int) 2 0)) = 3 \<and>
   (\<exists>totals. length totals = 3 \<and>
      dot (example_runtime [17179869184]) (example_state 3 (1::int) 2 0)
        = Inr (foldl (+) 0 totals, (example_state 3 (1::int) 2 0)\<lparr>sums_buf := totals\<rparr>)) \<and>
   (\<exists>st'. dot (example_runtime [17179869184]) (example_state 3 (1::int) 2 0)
            = Inr (16384, st')) \<and>
   (\<exists>st'. dot (example_runtime [17179869184])
            ((example_state 3 (1::int) 2 0)\<lparr>d_a := (replicate 8192 1)[5000 := 3]\<rparr>)
            = Inr (16388, st'))"
proof -
  let ?st = "example_state 3 (1::int) 2 0"
  let ?st2 = "(example_state 3 (1::int) 2 0)\<lparr>d_a := (replicate 8192 1)[5000 := 3]\<rparr>"
  let ?rt = "example_runtime [17179869184] :: int hip_runtime"
  let ?w = "\<lambda>i::nat. if i = 5000 then 6 else (2::nat)"
  have c: "consistent ?st" by (simp add: consistent_example_state)
  have g: "0 < dot_num_blocks ?st" by (simp add: example_state_def)
  have c2: "consistent ?st2" by (simp add: consistent_def example_state_def TBSIZE_def)
  have g2: "0 < dot_num_blocks ?st2" by (simp add: example_state_def)
  note t = dot_consumes_every_index_once [OF c g, where rt = ?rt and emb = int and one = 1 and two = 2]
  note u = dot_consumes_every_index_once [OF c2 g2, where rt = ?rt and emb = int and w = ?w]
  have n: "nat (array_size ?st) = 8192" "to_unsigned (dot_num_blocks ?st) = 3"
    by (simp_all add: example_state_def to_unsigned_def)
  have n2: "array_size ?st = 8192"
    by (simp add: example_state_def)
  have ok: "runtime_ok ?rt" by (rule runtime_ok_example)
  have ex: "\<exists>totals. length totals = k \<and> dot ?rt ?st = Inr (foldl (+) 0 totals, ?st\<lparr>sums_buf := totals\<rparr>)"
    if "dot ?rt ?st = Inr (foldl (+) 0 (map f [0..<k]), ?st\<lparr>sums_buf := map f [0..<k]\<rparr>)"
    for f :: "nat \<Rightarrow> int" and k
    using that by (intro exI [of _ "map f [0..<k]"]) simp
  have s: "\<exists>totals. length totals = 3 \<and>
             dot ?rt ?st = Inr (foldl (+) 0 totals, ?st\<lparr>sums_buf := totals\<rparr>)"
    using ex [OF t [THEN conjunct2, THEN conjunct2, THEN conjunct2, THEN conjunct1, rule_format, OF ok]]
    by (simp only: n)
  have h: "runtime_ok ?rt \<and>
      d_a ?st = replicate (nat (array_size ?st)) 1 \<and>
      d_b ?st = replicate (nat (array_size ?st)) 2 \<and>
      int 0 = 0 \<and> (1::int) * 2 = int 2 \<and>
      (\<forall>m n. m + n \<le> 2 * nat (array_size ?st) \<longrightarrow> int m + int n = int (m + n))"
    by (simp add: runtime_ok_example) (simp add: example_state_def)
  have "\<exists>st'. dot ?rt ?st = Inr (int (2 * nat (array_size ?st)), st')"
    using t h by blast
  then have d: "\<exists>st'. dot ?rt ?st = Inr (16384, st')"
    by (simp add: n)
  have h2: "runtime_ok ?rt \<and> int 0 = 0 \<and>
      (\<forall>i<nat (array_size ?st2). d_a ?st2 ! i * d_b ?st2 ! i = int (?w i)) \<and>
      (\<forall>m n. m + n \<le> (\<Sum>i\<leftarrow>[0..<nat (array_size ?st2)]. ?w i) \<longrightarrow> int m + int n = int (m + n))"
    by (simp add: runtime_ok_example) (simp add: example_state_def nth_list_update)
  have "\<exists>st'. dot ?rt ?st2 = Inr (int (\<Sum>i\<leftarrow>[0..<nat (array_size ?st2)]. ?w i), st')"
    using u h2 by blast
  then have d2: "\<exists>st'. dot ?rt ?st2 = Inr (16388, st')"
    by (simp add: n2 sum_list_one_other)
  show ?thesis
    using t [THEN conjunct1] n s d d2 by blast
qed

end
